theory Spec2Isabelle
  imports Complex_Main
begin

section \<open>Data model of the alignment engine\<close>

text \<open>
  The engine lives in the alignment service: \<open>runNeedlemanWunsch\<close> (global mode),
  \<open>runSmithWaterman\<close> (local mode) and \<open>calculateIdentity\<close>. The types are those of
  the shared type file: the enum \<open>Move\<close>, the interfaces \<open>Scoring\<close>, \<open>TracebackCell\<close>
  and \<open>AlignmentResult\<close>.

  Scores are JavaScript numbers holding integers; they are modelled as unbounded \<open>int\<close>
  (exact in the source as long as no score leaves the 53-bit range). The identity is
  a double-precision number; it is modelled as the rational it denotes, and the
  division and the multiplication that produce it round to the nearest double, as in
  the source (section Identity). Strings are lists of characters, and \<open>s[k]\<close> is one
  character.
\<close>

datatype Move = DIAGONAL | UP | LEFT | STOP

record Scoring =
  match :: int
  mismatch :: int
  gap :: int

record TracebackCell =
  row :: nat
  col :: nat

record AlignmentResult =
  alignedSeq1 :: string
  alignedSeq2 :: string
  identity :: rat
  score :: int
  matrix :: "int list list"
  trace :: "Move list list"
  path :: "TracebackCell list"
  seq1 :: string
  seq2 :: string
  scoring :: Scoring

text \<open>
  The traceback loops index the sequences and the two grids with loop variables
  that the grid contents steer. A read outside an array yields \<open>undefined\<close> in the
  source and the loop goes on with it; the model stops there instead and returns
  \<open>OutOfBounds\<close>, so that a run ending in \<open>Inr\<close> is a run in which every such read
  was inside its array.
\<close>

datatype error = OutOfBounds

section \<open>Array access\<close>

text \<open>\<open>grid[i][j] = v\<close> on a nested array.\<close>

definition set_cell :: "'a list list \<Rightarrow> nat \<Rightarrow> nat \<Rightarrow> 'a \<Rightarrow> 'a list list" where
  "set_cell g i j v = g[i := (g ! i)[j := v]]"

text \<open>\<open>grid[i][j]\<close> as read by the traceback: \<open>None\<close> outside the grid.\<close>

definition cell_at :: "'a list list \<Rightarrow> nat \<Rightarrow> nat \<Rightarrow> 'a option" where
  "cell_at g i j = (if i < length g \<and> j < length (g ! i) then Some (g ! i ! j) else None)"

text \<open>\<open>s[k]\<close>: \<open>None\<close> stands for \<open>undefined\<close>.\<close>

definition char_at :: "string \<Rightarrow> nat \<Rightarrow> char option" where
  "char_at s k = (if k < length s then Some (s ! k) else None)"

text \<open>\<open>seq[i - 1]\<close> as read by the traceback: at \<open>i = 0\<close> the index is \<open>-1\<close>.\<close>

definition char_before :: "string \<Rightarrow> nat \<Rightarrow> char option" where
  "char_before s i = (if 0 < i then char_at s (i - 1) else None)"

section \<open>Identity\<close>

text \<open>The counting loop of \<open>calculateIdentity\<close>; \<open>s2[i]\<close> may be \<open>undefined\<close>.\<close>

definition count_matches :: "string \<Rightarrow> string \<Rightarrow> nat" where
  "count_matches s1 s2 =
     fold (\<lambda>i matches.
             if char_at s1 i = char_at s2 i \<and> char_at s1 i \<noteq> Some (CHR ''-'')
             then matches + 1 else matches)
          [0..<length s1] 0"

text \<open>
  Double precision. A finite double is a rational \<open>n * 2 ^ (e - 52)\<close> with
  \<open>2 ^ 52 \<le> \<bar>n\<bar> < 2 ^ 53\<close>, or 0. An arithmetic operation of the source returns
  the double nearest to the exact result, the one with the even \<open>n\<close> when two are
  equally near. \<open>exponent x\<close> is the \<open>e\<close> with \<open>2 ^ e \<le> x < 2 ^ (e + 1)\<close>, found from
  the binary lengths of numerator and denominator. The exponent is not bounded here:
  the source's range \<open>-1022 \<dots> 1023\<close> is not left by a quotient of two string lengths
  times 100. The counters \<open>matches\<close> and \<open>s1.length\<close> are integers below \<open>2 ^ 53\<close> in
  the source and are held exactly.
\<close>

fun bitlen :: "nat \<Rightarrow> nat" where
  "bitlen n = (if n = 0 then 0 else Suc (bitlen (n div 2)))"

definition exponent :: "rat \<Rightarrow> int" where
  "exponent x =
     (case quotient_of x of (a, b) \<Rightarrow>
        let d = int (bitlen (nat a)) - int (bitlen (nat b))
        in if 2 powi d \<le> x then d else d - 1)"

definition round_half_even :: "rat \<Rightarrow> int" where
  "round_half_even y =
     (let f = \<lfloor>y\<rfloor>; r = y - of_int f
      in if r < 1 / 2 then f
         else if 1 / 2 < r then f + 1
         else if even f then f else f + 1)"

definition round_double :: "rat \<Rightarrow> rat" where
  "round_double x =
     (if x = 0 then 0
      else
        let m = \<bar>x\<bar>;
            ulp = 2 powi (exponent m - 52);
            n = of_int (round_half_even (m / ulp)) * ulp
        in if x < 0 then - n else n)"

text \<open>\<open>(matches / alignmentLength) * 100\<close>: the quotient is rounded, then the product.\<close>

definition calculateIdentity :: "string \<Rightarrow> string \<Rightarrow> rat" where
  "calculateIdentity s1 s2 =
     (if length s1 = 0 then 0
      else round_double
             (round_double (of_nat (count_matches s1 s2) / of_nat (length s1)) * 100))"

section \<open>Global mode: Needleman-Wunsch\<close>

text \<open>Step 1: allocation and the two boundary loops.\<close>

definition nw_init :: "nat \<Rightarrow> nat \<Rightarrow> Scoring \<Rightarrow> int list list \<times> Move list list" where
  "nw_init n m sc =
     (let matrix0 = replicate (n + 1) (replicate (m + 1) (0::int));
          trace0 = replicate (n + 1) (replicate (m + 1) STOP);
          st1 = fold (\<lambda>i (mx, tr). (set_cell mx i 0 (int i * gap sc), set_cell tr i 0 UP))
                     [1..<Suc n] (matrix0, trace0)
      in fold (\<lambda>j (mx, tr). (set_cell mx 0 j (int j * gap sc), set_cell tr 0 j LEFT))
              [1..<Suc m] st1)"

text \<open>Step 2: the body of the fill loop at cell \<open>(i, j)\<close>, and the two nested loops.\<close>

definition nw_cell ::
  "string \<Rightarrow> string \<Rightarrow> Scoring \<Rightarrow> nat \<Rightarrow> nat \<Rightarrow>
   int list list \<times> Move list list \<Rightarrow> int list list \<times> Move list list" where
  "nw_cell s1 s2 sc i j st =
     (case st of (mx, tr) \<Rightarrow>
        let matchScore = (if s1 ! (i - 1) = s2 ! (j - 1) then match sc else mismatch sc);
            diagonal = mx ! (i - 1) ! (j - 1) + matchScore;
            up = mx ! (i - 1) ! j + gap sc;
            left = mx ! i ! (j - 1) + gap sc
        in if diagonal \<ge> up \<and> diagonal \<ge> left then
             (set_cell mx i j diagonal, set_cell tr i j DIAGONAL)
           else if up \<ge> left then
             (set_cell mx i j up, set_cell tr i j UP)
           else
             (set_cell mx i j left, set_cell tr i j LEFT))"

definition nw_fill ::
  "string \<Rightarrow> string \<Rightarrow> Scoring \<Rightarrow> int list list \<times> Move list list \<Rightarrow>
   int list list \<times> Move list list" where
  "nw_fill s1 s2 sc st =
     fold (\<lambda>i. fold (\<lambda>j. nw_cell s1 s2 sc i j) [1..<Suc (length s2)])
          [1..<Suc (length s1)] st"

text \<open>
  Step 3: the traceback loop \<open>while (i > 0 || j > 0)\<close>. The arguments after the trace
  grid are the loop variables \<open>i\<close>, \<open>j\<close>, \<open>alignedSeq1\<close>, \<open>alignedSeq2\<close> and \<open>path\<close>.
  The last branch is the source's plain \<open>else\<close>: it takes \<open>LEFT\<close> and \<open>STOP\<close> alike.
  The loop variables are natural numbers: in the source \<open>i\<close> or \<open>j\<close> falls below 0 only
  in an iteration that reads \<open>seq[-1]\<close>, and that read is \<open>OutOfBounds\<close> here. Every
  iteration that is not cut short by \<open>OutOfBounds\<close> lowers \<open>i + j\<close>, which is the
  termination measure.
\<close>

function nw_traceback ::
  "string \<Rightarrow> string \<Rightarrow> Move list list \<Rightarrow> nat \<Rightarrow> nat \<Rightarrow> string \<Rightarrow> string \<Rightarrow>
   TracebackCell list \<Rightarrow> error + (string \<times> string \<times> TracebackCell list)" where
  "nw_traceback s1 s2 tr i j a1 a2 p =
     (if i > 0 \<or> j > 0 then
        (case cell_at tr i j of
           None \<Rightarrow> Inl OutOfBounds
         | Some move \<Rightarrow>
             if move = DIAGONAL then
               (case char_before s1 i of
                  None \<Rightarrow> Inl OutOfBounds
                | Some c1 \<Rightarrow>
                    (case char_before s2 j of
                       None \<Rightarrow> Inl OutOfBounds
                     | Some c2 \<Rightarrow>
                         nw_traceback s1 s2 tr (i - 1) (j - 1) (c1 # a1) (c2 # a2)
                           (p @ [\<lparr>row = i, col = j\<rparr>])))
             else if move = UP then
               (case char_before s1 i of
                  None \<Rightarrow> Inl OutOfBounds
                | Some c1 \<Rightarrow>
                    nw_traceback s1 s2 tr (i - 1) j (c1 # a1) (CHR ''-'' # a2)
                      (p @ [\<lparr>row = i, col = j\<rparr>]))
             else
               (case char_before s2 j of
                  None \<Rightarrow> Inl OutOfBounds
                | Some c2 \<Rightarrow>
                    nw_traceback s1 s2 tr i (j - 1) (CHR ''-'' # a1) (c2 # a2)
                      (p @ [\<lparr>row = i, col = j\<rparr>])))
      else Inr (a1, a2, p @ [\<lparr>row = 0, col = 0\<rparr>]))"
  by pat_completeness auto
termination
  by (relation "measure (\<lambda>(s1, s2, tr, i, j, a1, a2, p). i + j)")
     (auto simp: char_before_def split: if_splits)

definition runNeedlemanWunsch :: "string \<Rightarrow> string \<Rightarrow> Scoring \<Rightarrow> error + AlignmentResult" where
  "runNeedlemanWunsch s1 s2 sc =
     (let n = length s1;
          m = length s2
      in case nw_fill s1 s2 sc (nw_init n m sc) of (mx, tr) \<Rightarrow>
           (case nw_traceback s1 s2 tr n m [] [] [] of
              Inl e \<Rightarrow> Inl e
            | Inr (a1, a2, p) \<Rightarrow>
                Inr \<lparr>alignedSeq1 = a1, alignedSeq2 = a2,
                     identity = calculateIdentity a1 a2,
                     score = mx ! n ! m,
                     matrix = mx, trace = tr, path = rev p,
                     seq1 = s1, seq2 = s2, scoring = sc\<rparr>))"

section \<open>Local mode: Smith-Waterman\<close>

text \<open>The state of the fill loop: both grids and \<open>maxScore\<close>, \<open>maxI\<close>, \<open>maxJ\<close>.\<close>

record sw_state =
  sw_matrix :: "int list list"
  sw_trace :: "Move list list"
  maxScore :: int
  maxI :: nat
  maxJ :: nat

definition sw_init :: "nat \<Rightarrow> nat \<Rightarrow> sw_state" where
  "sw_init n m =
     \<lparr>sw_matrix = replicate (n + 1) (replicate (m + 1) (0::int)),
      sw_trace = replicate (n + 1) (replicate (m + 1) STOP),
      maxScore = 0, maxI = 0, maxJ = 0\<rparr>"

definition sw_cell :: "string \<Rightarrow> string \<Rightarrow> Scoring \<Rightarrow> nat \<Rightarrow> nat \<Rightarrow> sw_state \<Rightarrow> sw_state" where
  "sw_cell s1 s2 sc i j st =
     (let mx = sw_matrix st;
          matchScore = (if s1 ! (i - 1) = s2 ! (j - 1) then match sc else mismatch sc);
          diagonal = mx ! (i - 1) ! (j - 1) + matchScore;
          up = mx ! (i - 1) ! j + gap sc;
          left = mx ! i ! (j - 1) + gap sc;
          score = max (max (max 0 diagonal) up) left;
          st1 = st\<lparr>sw_matrix := set_cell mx i j score\<rparr>;
          st2 = (if score > maxScore st1
                 then st1\<lparr>maxScore := score, maxI := i, maxJ := j\<rparr> else st1)
      in if score = 0 then st2\<lparr>sw_trace := set_cell (sw_trace st2) i j STOP\<rparr>
         else if score = diagonal then st2\<lparr>sw_trace := set_cell (sw_trace st2) i j DIAGONAL\<rparr>
         else if score = up then st2\<lparr>sw_trace := set_cell (sw_trace st2) i j UP\<rparr>
         else st2\<lparr>sw_trace := set_cell (sw_trace st2) i j LEFT\<rparr>)"

definition sw_fill :: "string \<Rightarrow> string \<Rightarrow> Scoring \<Rightarrow> sw_state \<Rightarrow> sw_state" where
  "sw_fill s1 s2 sc st =
     fold (\<lambda>i. fold (\<lambda>j. sw_cell s1 s2 sc i j) [1..<Suc (length s2)])
          [1..<Suc (length s1)] st"

text \<open>
  The traceback loop \<open>while (matrix[i][j] > 0)\<close>; it returns the final \<open>i\<close> and \<open>j\<close>
  inside the last path entry, as the source pushes them after the loop.
\<close>

function sw_traceback ::
  "string \<Rightarrow> string \<Rightarrow> int list list \<Rightarrow> Move list list \<Rightarrow> nat \<Rightarrow> nat \<Rightarrow> string \<Rightarrow> string \<Rightarrow>
   TracebackCell list \<Rightarrow> error + (string \<times> string \<times> TracebackCell list)" where
  "sw_traceback s1 s2 mx tr i j a1 a2 p =
     (case cell_at mx i j of
        None \<Rightarrow> Inl OutOfBounds
      | Some v \<Rightarrow>
          if v > 0 then
            (case cell_at tr i j of
               None \<Rightarrow> Inl OutOfBounds
             | Some move \<Rightarrow>
                 if move = DIAGONAL then
                   (case char_before s1 i of
                      None \<Rightarrow> Inl OutOfBounds
                    | Some c1 \<Rightarrow>
                        (case char_before s2 j of
                           None \<Rightarrow> Inl OutOfBounds
                         | Some c2 \<Rightarrow>
                             sw_traceback s1 s2 mx tr (i - 1) (j - 1) (c1 # a1) (c2 # a2)
                               (p @ [\<lparr>row = i, col = j\<rparr>])))
                 else if move = UP then
                   (case char_before s1 i of
                      None \<Rightarrow> Inl OutOfBounds
                    | Some c1 \<Rightarrow>
                        sw_traceback s1 s2 mx tr (i - 1) j (c1 # a1) (CHR ''-'' # a2)
                          (p @ [\<lparr>row = i, col = j\<rparr>]))
                 else
                   (case char_before s2 j of
                      None \<Rightarrow> Inl OutOfBounds
                    | Some c2 \<Rightarrow>
                        sw_traceback s1 s2 mx tr i (j - 1) (CHR ''-'' # a1) (c2 # a2)
                          (p @ [\<lparr>row = i, col = j\<rparr>])))
          else Inr (a1, a2, p @ [\<lparr>row = i, col = j\<rparr>]))"
  by pat_completeness auto
termination
  by (relation "measure (\<lambda>(s1, s2, mx, tr, i, j, a1, a2, p). i + j)")
     (auto simp: char_before_def split: if_splits)

definition runSmithWaterman :: "string \<Rightarrow> string \<Rightarrow> Scoring \<Rightarrow> error + AlignmentResult" where
  "runSmithWaterman s1 s2 sc =
     (let n = length s1;
          m = length s2;
          st = sw_fill s1 s2 sc (sw_init n m)
      in case sw_traceback s1 s2 (sw_matrix st) (sw_trace st) (maxI st) (maxJ st) [] [] [] of
           Inl e \<Rightarrow> Inl e
         | Inr (a1, a2, p) \<Rightarrow>
             Inr \<lparr>alignedSeq1 = a1, alignedSeq2 = a2,
                  identity = calculateIdentity a1 a2,
                  score = maxScore st,
                  matrix = sw_matrix st, trace = sw_trace st, path = rev p,
                  seq1 = s1, seq2 = s2, scoring = sc\<rparr>)"


section \<open>The properties in the words of the specification\<close>

text \<open>
  The three candidates of the fill recurrence at cell \<open>(i, j)\<close>, read from a filled
  score matrix.
\<close>

definition cand_diagonal :: "string \<Rightarrow> string \<Rightarrow> Scoring \<Rightarrow> int list list \<Rightarrow> nat \<Rightarrow> nat \<Rightarrow> int" where
  "cand_diagonal s1 s2 sc mx i j =
     mx ! (i - 1) ! (j - 1) + (if s1 ! (i - 1) = s2 ! (j - 1) then match sc else mismatch sc)"

definition cand_up :: "Scoring \<Rightarrow> int list list \<Rightarrow> nat \<Rightarrow> nat \<Rightarrow> int" where
  "cand_up sc mx i j = mx ! (i - 1) ! j + gap sc"

definition cand_left :: "Scoring \<Rightarrow> int list list \<Rightarrow> nat \<Rightarrow> nat \<Rightarrow> int" where
  "cand_left sc mx i j = mx ! i ! (j - 1) + gap sc"

text \<open>The tie-break: diagonal before up, up before left, each with \<open>\<ge>\<close>.\<close>

definition tie_break :: "int \<Rightarrow> int \<Rightarrow> int \<Rightarrow> Move" where
  "tie_break diagonal up left =
     (if diagonal \<ge> up \<and> diagonal \<ge> left then DIAGONAL
      else if up \<ge> left then UP else LEFT)"

text \<open>The candidate that the tie-break chooses.\<close>

definition chosen :: "int \<Rightarrow> int \<Rightarrow> int \<Rightarrow> int" where
  "chosen diagonal up left =
     (case tie_break diagonal up left of
        DIAGONAL \<Rightarrow> diagonal | UP \<Rightarrow> up | LEFT \<Rightarrow> left | STOP \<Rightarrow> 0)"

text \<open>
  Matching positions of two aligned strings: equal characters, neither of them the
  gap marker.
\<close>

definition matching_positions :: "string \<Rightarrow> string \<Rightarrow> nat" where
  "matching_positions a b =
     length (filter (\<lambda>(x, y). x = y \<and> x \<noteq> CHR ''-'' \<and> y \<noteq> CHR ''-'') (zip a b))"

text \<open>
  Replaying a trace grid: from \<open>(i, j)\<close>, follow the recorded moves and list the cells
  visited, the start cell first. A move that leaves the grid, and \<open>STOP\<close> before the
  stop condition, end the replay with \<open>None\<close>. Global mode stops at \<open>(0, 0)\<close>, local
  mode at a cell whose matrix value is 0.
\<close>

function replay_global :: "Move list list \<Rightarrow> nat \<Rightarrow> nat \<Rightarrow> TracebackCell list option" where
  "replay_global tr i j =
     (if i = 0 \<and> j = 0 then Some [\<lparr>row = 0, col = 0\<rparr>]
      else
        (case cell_at tr i j of
           None \<Rightarrow> None
         | Some mv \<Rightarrow>
             (case mv of
                DIAGONAL \<Rightarrow>
                  if 0 < i \<and> 0 < j
                  then map_option ((#) \<lparr>row = i, col = j\<rparr>) (replay_global tr (i - 1) (j - 1))
                  else None
              | UP \<Rightarrow>
                  if 0 < i
                  then map_option ((#) \<lparr>row = i, col = j\<rparr>) (replay_global tr (i - 1) j)
                  else None
              | LEFT \<Rightarrow>
                  if 0 < j
                  then map_option ((#) \<lparr>row = i, col = j\<rparr>) (replay_global tr i (j - 1))
                  else None
              | STOP \<Rightarrow> None)))"
  by pat_completeness auto
termination
  by (relation "measure (\<lambda>(tr, i, j). i + j)") auto

function replay_local ::
  "int list list \<Rightarrow> Move list list \<Rightarrow> nat \<Rightarrow> nat \<Rightarrow> TracebackCell list option" where
  "replay_local mx tr i j =
     (case cell_at mx i j of
        None \<Rightarrow> None
      | Some v \<Rightarrow>
          if v = 0 then Some [\<lparr>row = i, col = j\<rparr>]
          else
            (case cell_at tr i j of
               None \<Rightarrow> None
             | Some mv \<Rightarrow>
                 (case mv of
                    DIAGONAL \<Rightarrow>
                      if 0 < i \<and> 0 < j
                      then map_option ((#) \<lparr>row = i, col = j\<rparr>) (replay_local mx tr (i - 1) (j - 1))
                      else None
                  | UP \<Rightarrow>
                      if 0 < i
                      then map_option ((#) \<lparr>row = i, col = j\<rparr>) (replay_local mx tr (i - 1) j)
                      else None
                  | LEFT \<Rightarrow>
                      if 0 < j
                      then map_option ((#) \<lparr>row = i, col = j\<rparr>) (replay_local mx tr i (j - 1))
                      else None
                  | STOP \<Rightarrow> None)))"
  by pat_completeness auto
termination
  by (relation "measure (\<lambda>(mx, tr, i, j). i + j)") auto

text \<open>
  Row-major order of cells, and the first cell in that order that holds the maximum of
  a grid of \<open>n + 1\<close> rows and \<open>m + 1\<close> columns.
\<close>

definition lex_le :: "nat \<Rightarrow> nat \<Rightarrow> nat \<Rightarrow> nat \<Rightarrow> bool" where
  "lex_le i j r c \<longleftrightarrow> i < r \<or> (i = r \<and> j \<le> c)"

definition first_maximum :: "int list list \<Rightarrow> nat \<Rightarrow> nat \<Rightarrow> nat \<Rightarrow> nat \<Rightarrow> bool" where
  "first_maximum mx n m i0 j0 \<longleftrightarrow>
     i0 \<le> n \<and> j0 \<le> m \<and>
     (\<forall>i\<in>{..n}. \<forall>j\<in>{..m}.
        mx ! i ! j \<le> mx ! i0 ! j0 \<and> (mx ! i ! j = mx ! i0 ! j0 \<longrightarrow> lex_le i0 j0 i j))"

section \<open>The recurrences as functions of the cell\<close>

text \<open>
  The value and the move that the fill loops write to cell \<open>(i, j)\<close>, as functions of
  the inputs alone; the fill loops are shown to tabulate them. \<open>agree\<close> says that two
  grids of \<open>n + 1\<close> rows and \<open>m + 1\<close> columns hold these values on the cells selected
  by \<open>P\<close>; \<open>before i k\<close> selects the boundary and the cells that the nested loops have
  written when they reach cell \<open>(i, k)\<close>.
\<close>

definition agree ::
  "(nat \<Rightarrow> nat \<Rightarrow> int \<times> Move) \<Rightarrow> nat \<Rightarrow> nat \<Rightarrow> (nat \<Rightarrow> nat \<Rightarrow> bool) \<Rightarrow>
   int list list \<Rightarrow> Move list list \<Rightarrow> bool" where
  "agree ref n m P mx tr \<longleftrightarrow>
     length mx = Suc n \<and> length tr = Suc n \<and>
     (\<forall>r\<le>n. length (mx ! r) = Suc m \<and> length (tr ! r) = Suc m) \<and>
     (\<forall>r\<le>n. \<forall>c\<le>m. P r c \<longrightarrow> mx ! r ! c = fst (ref r c) \<and> tr ! r ! c = snd (ref r c))"

definition before :: "nat \<Rightarrow> nat \<Rightarrow> nat \<Rightarrow> nat \<Rightarrow> bool" where
  "before i k r c \<longleftrightarrow> r = 0 \<or> c = 0 \<or> r < i \<or> (r = i \<and> c < k)"

definition nw_choose :: "int \<Rightarrow> int \<Rightarrow> int \<Rightarrow> int \<times> Move" where
  "nw_choose diagonal up left =
     (if diagonal \<ge> up \<and> diagonal \<ge> left then (diagonal, DIAGONAL)
      else if up \<ge> left then (up, UP) else (left, LEFT))"

fun nw_ref :: "string \<Rightarrow> string \<Rightarrow> Scoring \<Rightarrow> nat \<Rightarrow> nat \<Rightarrow> int \<times> Move" where
  "nw_ref s1 s2 sc 0 0 = (0, STOP)"
| "nw_ref s1 s2 sc (Suc i) 0 = (int (Suc i) * gap sc, UP)"
| "nw_ref s1 s2 sc 0 (Suc j) = (int (Suc j) * gap sc, LEFT)"
| "nw_ref s1 s2 sc (Suc i) (Suc j) =
     nw_choose
       (fst (nw_ref s1 s2 sc i j) + (if s1 ! i = s2 ! j then match sc else mismatch sc))
       (fst (nw_ref s1 s2 sc i (Suc j)) + gap sc)
       (fst (nw_ref s1 s2 sc (Suc i) j) + gap sc)"

definition sw_choose :: "int \<Rightarrow> int \<Rightarrow> int \<Rightarrow> int \<times> Move" where
  "sw_choose diagonal up left =
     (let score = max (max (max 0 diagonal) up) left
      in (score, if score = 0 then STOP else if score = diagonal then DIAGONAL
                 else if score = up then UP else LEFT))"

fun sw_ref :: "string \<Rightarrow> string \<Rightarrow> Scoring \<Rightarrow> nat \<Rightarrow> nat \<Rightarrow> int \<times> Move" where
  "sw_ref s1 s2 sc 0 j = (0, STOP)"
| "sw_ref s1 s2 sc (Suc i) 0 = (0, STOP)"
| "sw_ref s1 s2 sc (Suc i) (Suc j) =
     sw_choose
       (fst (sw_ref s1 s2 sc i j) + (if s1 ! i = s2 ! j then match sc else mismatch sc))
       (fst (sw_ref s1 s2 sc i (Suc j)) + gap sc)
       (fst (sw_ref s1 s2 sc (Suc i) j) + gap sc)"


text \<open>
  The invariant of \<open>maxScore\<close>, \<open>maxI\<close>, \<open>maxJ\<close>: the running maximum over the
  cells written so far and the first cell, in row-major order, that holds it.
\<close>

definition max_inv ::
  "(nat \<Rightarrow> nat \<Rightarrow> int \<times> Move) \<Rightarrow> nat \<Rightarrow> nat \<Rightarrow> nat \<Rightarrow> nat \<Rightarrow> sw_state \<Rightarrow> bool" where
  "max_inv ref n m i k st \<longleftrightarrow>
     maxI st \<le> n \<and> maxJ st \<le> m \<and> fst (ref (maxI st) (maxJ st)) = maxScore st \<and>
     0 \<le> maxScore st \<and>
     (maxScore st = 0 \<longrightarrow> maxI st = 0 \<and> maxJ st = 0) \<and>
     (0 < maxScore st \<longrightarrow> before i k (maxI st) (maxJ st)) \<and>
     (\<forall>r\<le>n. \<forall>c\<le>m. before i k r c \<longrightarrow>
        fst (ref r c) \<le> maxScore st \<and>
        (fst (ref r c) = maxScore st \<longrightarrow> lex_le (maxI st) (maxJ st) r c))"

definition sw_inv :: "string \<Rightarrow> string \<Rightarrow> Scoring \<Rightarrow> nat \<Rightarrow> nat \<Rightarrow> sw_state \<Rightarrow> bool" where
  "sw_inv s1 s2 sc i k st \<longleftrightarrow>
     agree (sw_ref s1 s2 sc) (length s1) (length s2) (before i k) (sw_matrix st) (sw_trace st) \<and>
     max_inv (sw_ref s1 s2 sc) (length s1) (length s2) i k st"

section \<open>Walks through the trace grid\<close>

text \<open>What a successful traceback returns, relative to the loop variables it started with.\<close>

definition walked ::
  "string \<Rightarrow> string \<Rightarrow> TracebackCell list \<Rightarrow> TracebackCell list \<Rightarrow>
   error + (string \<times> string \<times> TracebackCell list) \<Rightarrow> bool" where
  "walked a1 a2 p w res \<longleftrightarrow>
     (\<exists>b1 b2. res = Inr (b1 @ a1, b2 @ a2, p @ w) \<and>
        length b1 = length b2 \<and> length w = Suc (length b1))"

text \<open>
  The cells of a replayed walk from \<open>(i, j)\<close>: it starts there, stays inside the
  rectangle up to \<open>(i, j)\<close>, and \<open>row + col\<close> falls at every step.
\<close>

definition descending :: "nat \<Rightarrow> nat \<Rightarrow> TracebackCell list \<Rightarrow> bool" where
  "descending i j w \<longleftrightarrow>
     w \<noteq> [] \<and> hd w = \<lparr>row = i, col = j\<rparr> \<and>
     list_all (\<lambda>c. row c \<le> i \<and> col c \<le> j) w \<and>
     sorted_wrt (\<lambda>a b. row b + col b < row a + col a) w"

section \<open>Grids and loops\<close>

lemma length_set_cell: "length (set_cell g i j v) = length g"
  by (simp add: set_cell_def)

lemma length_set_cell_row: "length (set_cell g i j v ! r) = length (g ! r)"
  by (cases "i < length g") (simp_all add: set_cell_def nth_list_update list_update_beyond)

lemma nth_set_cell:
  "i < length g \<Longrightarrow> j < length (g ! i) \<Longrightarrow>
   set_cell g i j v ! r ! c = (if r = i \<and> c = j then v else g ! r ! c)"
  by (simp add: set_cell_def nth_list_update)

lemma fold_upt_inv:
  assumes "I a s" and "\<And>k t. a \<le> k \<Longrightarrow> k < b \<Longrightarrow> I k t \<Longrightarrow> I (Suc k) (f k t)" and "a \<le> b"
  shows "I b (fold f [a..<b] s)"
  using assms(3,2)
proof (induction b)
  case 0
  then show ?case using assms(1) by simp
next
  case (Suc b)
  show ?case
  proof (cases "a = Suc b")
    case True
    then show ?thesis using assms(1) by simp
  next
    case False
    with Suc.prems have le: "a \<le> b" by simp
    have "I b (fold f [a..<b] s)"
      by (rule Suc.IH [OF le]) (simp add: Suc.prems(2))
    then have "I (Suc b) (f b (fold f [a..<b] s))"
      by (rule Suc.prems(2) [OF le lessI])
    then show ?thesis using le by simp
  qed
qed

lemma agree_set_cell:
  assumes "agree ref n m P mx tr" and "i \<le> n" and "j \<le> m"
    and "v = fst (ref i j)" and "mv = snd (ref i j)"
    and "\<And>r c. r \<le> n \<Longrightarrow> c \<le> m \<Longrightarrow> Q r c \<Longrightarrow> P r c \<or> (r = i \<and> c = j)"
  shows "agree ref n m Q (set_cell mx i j v) (set_cell tr i j mv)"
proof -
  have len: "length mx = Suc n" "length tr = Suc n"
    and rows: "\<And>r. r \<le> n \<Longrightarrow> length (mx ! r) = Suc m \<and> length (tr ! r) = Suc m"
    and vals: "\<And>r c. r \<le> n \<Longrightarrow> c \<le> m \<Longrightarrow> P r c \<Longrightarrow>
                 mx ! r ! c = fst (ref r c) \<and> tr ! r ! c = snd (ref r c)"
    using assms(1) unfolding agree_def by auto
  have inm: "i < length mx" "j < length (mx ! i)" and intr: "i < length tr" "j < length (tr ! i)"
    using len rows [of i] assms(2,3) by auto
  show ?thesis
    unfolding agree_def
  proof (intro conjI allI impI)
    fix r c assume rc: "r \<le> n" "c \<le> m" "Q r c"
    from assms(6) [OF rc] consider "r = i \<and> c = j" | "P r c" by blast
    then show "set_cell mx i j v ! r ! c = fst (ref r c)"
      using vals [OF rc(1,2)] assms(4) by cases (simp_all add: nth_set_cell [OF inm])
    from assms(6) [OF rc] consider "r = i \<and> c = j" | "P r c" by blast
    then show "set_cell tr i j mv ! r ! c = snd (ref r c)"
      using vals [OF rc(1,2)] assms(5) by cases (simp_all add: nth_set_cell [OF intr])
  qed (simp_all add: length_set_cell length_set_cell_row len rows)
qed

lemma agree_weaken:
  assumes "agree ref n m P mx tr"
    and "\<And>r c. r \<le> n \<Longrightarrow> c \<le> m \<Longrightarrow> Q r c \<Longrightarrow> P r c"
  shows "agree ref n m Q mx tr"
  using assms unfolding agree_def by auto

lemma agree_init:
  "ref 0 0 = (0, STOP) \<Longrightarrow>
   agree ref n m (\<lambda>r c. r = 0 \<and> c = 0)
     (replicate (n + 1) (replicate (m + 1) 0)) (replicate (n + 1) (replicate (m + 1) STOP))"
  by (simp add: agree_def nth_Cons' del: replicate.simps)

lemma nw_init_agree:
  "agree (nw_ref s1 s2 sc) n m (\<lambda>r c. r = 0 \<or> c = 0)
     (fst (nw_init n m sc)) (snd (nw_init n m sc))"
proof -
  let ?ref = "nw_ref s1 s2 sc"
  let ?f = "\<lambda>i (mx, tr). (set_cell mx i 0 (int i * gap sc), set_cell tr i 0 UP)"
  let ?g = "\<lambda>j (mx, tr). (set_cell mx 0 j (int j * gap sc), set_cell tr 0 j LEFT)"
  let ?s0 = "(replicate (n + 1) (replicate (m + 1) (0::int)), replicate (n + 1) (replicate (m + 1) STOP))"
  let ?I = "\<lambda>k st. agree ?ref n m (\<lambda>r c. c = 0 \<and> r < k) (fst st) (snd st)"
  let ?J = "\<lambda>k st. agree ?ref n m (\<lambda>r c. c = 0 \<or> (r = 0 \<and> c < k)) (fst st) (snd st)"
  have "?I (Suc n) (fold ?f [1..<Suc n] ?s0)"
  proof (rule fold_upt_inv)
    show "?I 1 ?s0"
      using agree_init [of ?ref n m] by (auto elim: agree_weaken)
  next
    fix k t assume k: "1 \<le> k" "k < Suc n" and t: "?I k t"
    from k obtain k' where [simp]: "k = Suc k'" by (cases k) auto
    have "agree ?ref n m (\<lambda>r c. c = 0 \<and> r < Suc k)
            (set_cell (fst t) k 0 (int k * gap sc)) (set_cell (snd t) k 0 UP)"
      by (rule agree_set_cell [OF t]) (use k in auto)
    then show "?I (Suc k) (?f k t)" by (simp add: case_prod_beta)
  qed simp
  then have 1: "?J 1 (fold ?f [1..<Suc n] ?s0)"
    by (rule agree_weaken) auto
  have "?J (Suc m) (fold ?g [1..<Suc m] (fold ?f [1..<Suc n] ?s0))"
  proof (rule fold_upt_inv [where I = ?J, OF 1])
    fix k t assume k: "1 \<le> k" "k < Suc m" and t: "?J k t"
    from k obtain k' where [simp]: "k = Suc k'" by (cases k) auto
    have "agree ?ref n m (\<lambda>r c. c = 0 \<or> (r = 0 \<and> c < Suc k))
            (set_cell (fst t) 0 k (int k * gap sc)) (set_cell (snd t) 0 k LEFT)"
      by (rule agree_set_cell [OF t]) (use k in auto)
    then show "?J (Suc k) (?g k t)" by (simp add: case_prod_beta)
  qed simp
  then have "?J (Suc m) (nw_init n m sc)"
    unfolding nw_init_def Let_def .
  then show ?thesis
    by (rule agree_weaken) auto
qed

lemma before_next_row: "c \<le> m \<Longrightarrow> before i (Suc m) r c \<longleftrightarrow> before (Suc i) 1 r c"
  by (auto simp: before_def)

lemma nw_cell_agree:
  assumes ag: "agree (nw_ref s1 s2 sc) n m (before i j) (fst st) (snd st)"
    and i: "1 \<le> i" "i \<le> n" and j: "1 \<le> j" "j \<le> m"
  shows "agree (nw_ref s1 s2 sc) n m (before i (Suc j))
           (fst (nw_cell s1 s2 sc i j st)) (snd (nw_cell s1 s2 sc i j st))"
proof -
  let ?ref = "nw_ref s1 s2 sc"
  obtain mx tr where [simp]: "st = (mx, tr)" by (cases st)
  obtain i' j' where [simp]: "i = Suc i'" "j = Suc j'"
    using i j by (cases i; cases j) auto
  have vals: "\<And>r c. r \<le> n \<Longrightarrow> c \<le> m \<Longrightarrow> before i j r c \<Longrightarrow> mx ! r ! c = fst (?ref r c)"
    using ag unfolding agree_def by simp
  have d: "mx ! i' ! j' = fst (?ref i' j')"
    and u: "mx ! i' ! j = fst (?ref i' j)"
    and l: "mx ! i ! j' = fst (?ref i j')"
    using i j by (auto intro!: vals simp: before_def)
  have eq: "nw_cell s1 s2 sc i j st =
          (set_cell mx i j (fst (?ref i j)), set_cell tr i j (snd (?ref i j)))"
    using d u l by (simp add: nw_cell_def nw_choose_def Let_def)
  have "agree ?ref n m (before i (Suc j)) (set_cell mx i j (fst (?ref i j))) (set_cell tr i j (snd (?ref i j)))"
    by (rule agree_set_cell [OF ag [simplified] i(2) j(2) refl refl]) (auto simp: before_def)
  then show ?thesis unfolding eq by simp
qed

lemma nw_fill_agree:
  "agree (nw_ref s1 s2 sc) (length s1) (length s2) (\<lambda>r c. True)
     (fst (nw_fill s1 s2 sc (nw_init (length s1) (length s2) sc)))
     (snd (nw_fill s1 s2 sc (nw_init (length s1) (length s2) sc)))"
proof -
  let ?n = "length s1" and ?m = "length s2"
  let ?ref = "nw_ref s1 s2 sc"
  let ?I = "\<lambda>i k st. agree ?ref ?n ?m (before i k) (fst st) (snd st)"
  let ?row = "\<lambda>i. fold (\<lambda>j. nw_cell s1 s2 sc i j) [1..<Suc ?m]"
  have row: "?I (Suc i) 1 (?row i t)" if i: "1 \<le> i" "i < Suc ?n" and t: "?I i 1 t" for i t
  proof -
    have "?I i (Suc ?m) (?row i t)"
    proof (rule fold_upt_inv [where I = "?I i", OF t])
      fix k u assume k: "1 \<le> k" "k < Suc ?m" and u: "?I i k u"
      show "?I i (Suc k) (nw_cell s1 s2 sc i k u)"
        by (rule nw_cell_agree [OF u]) (use i k in simp_all)
    qed simp
    then show ?thesis
      by (rule agree_weaken) (simp add: before_next_row)
  qed
  have start: "?I 1 1 (nw_init ?n ?m sc)"
    by (rule agree_weaken [OF nw_init_agree]) (auto simp: before_def)
  have "?I (Suc ?n) 1 (fold ?row [1..<Suc ?n] (nw_init ?n ?m sc))"
    by (rule fold_upt_inv [where I = "\<lambda>i. ?I i 1", OF start]) (rule row, simp_all)
  then have "?I (Suc ?n) 1 (nw_fill s1 s2 sc (nw_init ?n ?m sc))"
    unfolding nw_fill_def .
  then show ?thesis
    by (rule agree_weaken) (auto simp: before_def)
qed

lemma sw_ref_boundary: "r = 0 \<or> c = 0 \<Longrightarrow> sw_ref s1 s2 sc r c = (0, STOP)"
  by (cases r; cases c) auto

lemma sw_ref_nonneg: "0 \<le> fst (sw_ref s1 s2 sc r c)"
  by (cases r; cases c) (simp_all add: sw_choose_def Let_def le_max_iff_disj)

lemma sw_init_inv: "sw_inv s1 s2 sc 1 1 (sw_init (length s1) (length s2))"
proof -
  have "agree (sw_ref s1 s2 sc) (length s1) (length s2) (before 1 1)
          (replicate (length s1 + 1) (replicate (length s2 + 1) 0))
          (replicate (length s1 + 1) (replicate (length s2 + 1) STOP))"
    by (simp add: agree_def nth_Cons' sw_ref_boundary before_def del: replicate.simps)
  moreover have "max_inv (sw_ref s1 s2 sc) (length s1) (length s2) 1 1 (sw_init (length s1) (length s2))"
    by (auto simp: max_inv_def sw_init_def sw_ref_boundary before_def lex_le_def)
  ultimately show ?thesis
    by (simp add: sw_inv_def sw_init_def)
qed

lemma before_step: "before i (Suc j) r c \<longleftrightarrow> before i j r c \<or> (r = i \<and> c = j)"
  by (auto simp: before_def)

lemma max_inv_step:
  assumes mi: "max_inv ref n m i j st"
    and i: "1 \<le> i" "i \<le> n" and j: "1 \<le> j" "j \<le> m"
    and bd: "\<And>r c. r = 0 \<or> c = 0 \<Longrightarrow> fst (ref r c) = 0"
    and v: "v = fst (ref i j)"
    and s_eq: "maxScore st' = (if v > maxScore st then v else maxScore st)"
    and i_eq: "maxI st' = (if v > maxScore st then i else maxI st)"
    and j_eq: "maxJ st' = (if v > maxScore st then j else maxJ st)"
  shows "max_inv ref n m i (Suc j) st'"
proof -
  have old: "\<And>r c. r \<le> n \<Longrightarrow> c \<le> m \<Longrightarrow> before i j r c \<Longrightarrow> fst (ref r c) \<le> maxScore st"
    and old_eq: "\<And>r c. r \<le> n \<Longrightarrow> c \<le> m \<Longrightarrow> before i j r c \<Longrightarrow>
                 fst (ref r c) = maxScore st \<Longrightarrow> lex_le (maxI st) (maxJ st) r c"
    and rest: "maxI st \<le> n" "maxJ st \<le> m" "fst (ref (maxI st) (maxJ st)) = maxScore st"
      "0 \<le> maxScore st"
    and zero: "maxScore st = 0 \<Longrightarrow> maxI st = 0 \<and> maxJ st = 0"
    and pos: "0 < maxScore st \<Longrightarrow> before i j (maxI st) (maxJ st)"
    using mi unfolding max_inv_def by blast+
  show ?thesis
  proof (cases "v > maxScore st")
    case True
    then have eqs: "maxScore st' = v" "maxI st' = i" "maxJ st' = j"
      using s_eq i_eq j_eq by simp_all
    have vpos: "0 < v" using True rest(4) by simp
    show ?thesis
      unfolding max_inv_def eqs
    proof (intro conjI allI impI)
      show "i \<le> n" "j \<le> m" by fact+
      show "fst (ref i j) = v" using v by simp
      show "0 \<le> v" using vpos by simp
      show "i = 0" if "v = 0" using that vpos by simp
      show "j = 0" if "v = 0" using that vpos by simp
      show "before i (Suc j) i j" by (simp add: before_def)
    next
      fix r c assume rc: "r \<le> n" "c \<le> m" "before i (Suc j) r c"
      then consider "before i j r c" | "r = i \<and> c = j" by (auto simp: before_step)
      then show "fst (ref r c) \<le> v"
      proof cases
        case 1
        from old [OF rc(1,2) 1] True show ?thesis by simp
      next
        case 2
        then show ?thesis using v by simp
      qed
      assume e: "fst (ref r c) = v"
      have "\<not> before i j r c"
      proof
        assume "before i j r c"
        from old [OF rc(1,2) this] e True show False by simp
      qed
      with rc(3) have "r = i \<and> c = j" by (simp add: before_step)
      then show "lex_le i j r c" by (simp add: lex_le_def)
    qed
  next
    case False
    then have eqs: "maxScore st' = maxScore st" "maxI st' = maxI st" "maxJ st' = maxJ st"
      using s_eq i_eq j_eq by simp_all
    have here: "lex_le (maxI st) (maxJ st) i j"
    proof (cases "maxScore st = 0")
      case True
      from zero [OF True] show ?thesis by (auto simp: lex_le_def)
    next
      case nz: False
      with rest(4) have p: "0 < maxScore st" by simp
      have b: "before i j (maxI st) (maxJ st)" by (rule pos [OF p])
      have "\<not> (maxI st = 0 \<or> maxJ st = 0)"
      proof
        assume "maxI st = 0 \<or> maxJ st = 0"
        from bd [OF this] rest(3) nz show False by simp
      qed
      with b show ?thesis by (auto simp: before_def lex_le_def)
    qed
    show ?thesis
      unfolding max_inv_def eqs
    proof (intro conjI allI impI)
      show "maxI st \<le> n" "maxJ st \<le> m" "fst (ref (maxI st) (maxJ st)) = maxScore st"
        "0 \<le> maxScore st" by fact+
      show "maxI st = 0" if "maxScore st = 0" using zero [OF that] by simp
      show "maxJ st = 0" if "maxScore st = 0" using zero [OF that] by simp
      show "before i (Suc j) (maxI st) (maxJ st)" if "0 < maxScore st"
        using pos [OF that] by (simp add: before_step)
    next
      fix r c assume rc: "r \<le> n" "c \<le> m" "before i (Suc j) r c"
      then consider "before i j r c" | "r = i \<and> c = j" by (auto simp: before_step)
      note cs = this
      from cs show "fst (ref r c) \<le> maxScore st"
      proof cases
        case 1
        from old [OF rc(1,2) 1] show ?thesis .
      next
        case 2
        then show ?thesis using v False by simp
      qed
      assume e: "fst (ref r c) = maxScore st"
      from cs show "lex_le (maxI st) (maxJ st) r c"
      proof cases
        case 1
        from old_eq [OF rc(1,2) 1 e] show ?thesis .
      next
        case 2
        then show ?thesis using here by simp
      qed
    qed
  qed
qed

lemma sw_cell_inv:
  assumes inv: "sw_inv s1 s2 sc i j st"
    and i: "1 \<le> i" "i \<le> length s1" and j: "1 \<le> j" "j \<le> length s2"
  shows "sw_inv s1 s2 sc i (Suc j) (sw_cell s1 s2 sc i j st)"
proof -
  let ?ref = "sw_ref s1 s2 sc" and ?n = "length s1" and ?m = "length s2"
  let ?mx = "sw_matrix st" and ?tr = "sw_trace st"
  let ?v = "fst (?ref i j)"
  from inv have ag: "agree ?ref ?n ?m (before i j) ?mx ?tr"
    and mi: "max_inv ?ref ?n ?m i j st"
    by (simp_all add: sw_inv_def)
  obtain i' j' where ij: "i = Suc i'" "j = Suc j'"
    using i j by (cases i; cases j) auto
  have vals: "\<And>r c. r \<le> ?n \<Longrightarrow> c \<le> ?m \<Longrightarrow> before i j r c \<Longrightarrow> ?mx ! r ! c = fst (?ref r c)"
    using ag unfolding agree_def by simp
  have d: "?mx ! (i - 1) ! (j - 1) = fst (?ref (i - 1) (j - 1))"
    and u: "?mx ! (i - 1) ! j = fst (?ref (i - 1) j)"
    and l: "?mx ! i ! (j - 1) = fst (?ref i (j - 1))"
    using i j by (auto intro!: vals simp: before_def)
  define dg where "dg = ?mx ! (i - 1) ! (j - 1) + (if s1 ! (i - 1) = s2 ! (j - 1) then match sc else mismatch sc)"
  define up where "up = ?mx ! (i - 1) ! j + gap sc"
  define lf where "lf = ?mx ! i ! (j - 1) + gap sc"
  define v where "v = max (max (max 0 dg) up) lf"
  define mv where "mv = (if v = 0 then STOP else if v = dg then DIAGONAL else if v = up then UP else LEFT)"
  define st1 where "st1 = st\<lparr>sw_matrix := set_cell ?mx i j v\<rparr>"
  define st2 where "st2 = (if v > maxScore st1 then st1\<lparr>maxScore := v, maxI := i, maxJ := j\<rparr> else st1)"
  have cell: "sw_cell s1 s2 sc i j st =
      (if v = 0 then st2\<lparr>sw_trace := set_cell (sw_trace st2) i j STOP\<rparr>
       else if v = dg then st2\<lparr>sw_trace := set_cell (sw_trace st2) i j DIAGONAL\<rparr>
       else if v = up then st2\<lparr>sw_trace := set_cell (sw_trace st2) i j UP\<rparr>
       else st2\<lparr>sw_trace := set_cell (sw_trace st2) i j LEFT\<rparr>)"
    unfolding sw_cell_def Let_def st2_def st1_def v_def dg_def up_def lf_def by (rule refl)
  have cell': "sw_cell s1 s2 sc i j st = st2\<lparr>sw_trace := set_cell (sw_trace st2) i j mv\<rparr>"
    unfolding cell mv_def by (simp only: if_distrib [of "\<lambda>x. st2\<lparr>sw_trace := set_cell (sw_trace st2) i j x\<rparr>"])
  have ref_eq: "?ref i j = (v, mv)"
    by (simp only: ij sw_ref.simps sw_choose_def Let_def v_def mv_def dg_def up_def lf_def
          d [unfolded ij diff_Suc_1] u [unfolded ij diff_Suc_1] l [unfolded ij diff_Suc_1] diff_Suc_1)
  have v: "?v = v" and mv: "snd (?ref i j) = mv"
    by (simp_all only: ref_eq fst_conv snd_conv)
  have m_eq: "sw_matrix (sw_cell s1 s2 sc i j st) = set_cell ?mx i j ?v"
    unfolding cell' v by (simp add: st2_def st1_def)
  have t_eq: "sw_trace (sw_cell s1 s2 sc i j st) = set_cell ?tr i j (snd (?ref i j))"
    unfolding cell' v mv by (simp add: st2_def st1_def)
  have s_eq: "maxScore (sw_cell s1 s2 sc i j st) = (if ?v > maxScore st then ?v else maxScore st)"
    and i_eq: "maxI (sw_cell s1 s2 sc i j st) = (if ?v > maxScore st then i else maxI st)"
    and j_eq: "maxJ (sw_cell s1 s2 sc i j st) = (if ?v > maxScore st then j else maxJ st)"
    unfolding cell' v by (simp_all add: st2_def st1_def)
  have "agree ?ref ?n ?m (before i (Suc j)) (set_cell ?mx i j ?v) (set_cell ?tr i j (snd (?ref i j)))"
    by (rule agree_set_cell [OF ag i(2) j(2) refl refl]) (auto simp: before_def)
  moreover have "max_inv ?ref ?n ?m i (Suc j) (sw_cell s1 s2 sc i j st)"
    by (rule max_inv_step [OF mi i j _ refl s_eq i_eq j_eq]) (simp add: sw_ref_boundary)
  ultimately show ?thesis
    unfolding sw_inv_def m_eq t_eq by simp
qed

lemma max_inv_weaken:
  assumes "max_inv ref n m i k st"
    and "\<And>r c. r \<le> n \<Longrightarrow> c \<le> m \<Longrightarrow> before i' k' r c \<longleftrightarrow> before i k r c"
  shows "max_inv ref n m i' k' st"
proof -
  have mm: "maxI st \<le> n" "maxJ st \<le> m"
    using assms(1) unfolding max_inv_def by blast+
  show ?thesis
    using assms(1) unfolding max_inv_def
    by (simp add: assms(2) [OF mm] assms(2) cong: conj_cong imp_cong all_cong)
qed

lemma sw_inv_next_row: "sw_inv s1 s2 sc i (Suc (length s2)) st \<Longrightarrow> sw_inv s1 s2 sc (Suc i) 1 st"
  unfolding sw_inv_def
  by (blast intro: agree_weaken [where P = "before i (Suc (length s2))"] max_inv_weaken
        dest: before_next_row [THEN iffD2] before_next_row)

lemma sw_fill_inv:
  "sw_inv s1 s2 sc (Suc (length s1)) 1 (sw_fill s1 s2 sc (sw_init (length s1) (length s2)))"
proof -
  let ?n = "length s1" and ?m = "length s2"
  let ?row = "\<lambda>i. fold (\<lambda>j. sw_cell s1 s2 sc i j) [1..<Suc ?m]"
  have row: "sw_inv s1 s2 sc (Suc i) 1 (?row i t)"
    if i: "1 \<le> i" "i < Suc ?n" and t: "sw_inv s1 s2 sc i 1 t" for i t
  proof -
    have "sw_inv s1 s2 sc i (Suc ?m) (?row i t)"
    proof (rule fold_upt_inv [where I = "sw_inv s1 s2 sc i", OF t])
      fix k u assume k: "1 \<le> k" "k < Suc ?m" and u: "sw_inv s1 s2 sc i k u"
      show "sw_inv s1 s2 sc i (Suc k) (sw_cell s1 s2 sc i k u)"
        by (rule sw_cell_inv [OF u]) (use i k in simp_all)
    qed simp
    then show ?thesis by (rule sw_inv_next_row)
  qed
  have "sw_inv s1 s2 sc (Suc ?n) 1 (fold ?row [1..<Suc ?n] (sw_init ?n ?m))"
    by (rule fold_upt_inv [where I = "\<lambda>i. sw_inv s1 s2 sc i 1", OF sw_init_inv]) (rule row, simp_all)
  then show ?thesis
    unfolding sw_fill_def .
qed

section \<open>The traceback loops\<close>

declare nw_traceback.simps [simp del] sw_traceback.simps [simp del]
  replay_global.simps [simp del] replay_local.simps [simp del]

lemma agree_cell_at:
  assumes "agree ref n m P mx tr" and "i \<le> n" and "j \<le> m" and "P i j"
  shows "cell_at mx i j = Some (fst (ref i j))" and "cell_at tr i j = Some (snd (ref i j))"
  using assms unfolding agree_def cell_at_def by auto

lemma char_before_Some: "0 < i \<Longrightarrow> i \<le> length s \<Longrightarrow> char_before s i = Some (s ! (i - 1))"
  by (simp add: char_before_def char_at_def)

lemma nw_step_diagonal:
  assumes "cell_at tr i j = Some DIAGONAL" and "0 < i" "i \<le> length s1" and "0 < j" "j \<le> length s2"
  shows "nw_traceback s1 s2 tr i j a1 a2 p =
         nw_traceback s1 s2 tr (i - 1) (j - 1) (s1 ! (i - 1) # a1) (s2 ! (j - 1) # a2)
           (p @ [\<lparr>row = i, col = j\<rparr>])"
  using assms by (subst nw_traceback.simps) (simp add: char_before_Some)

lemma nw_step_up:
  assumes "cell_at tr i j = Some UP" and "0 < i" "i \<le> length s1"
  shows "nw_traceback s1 s2 tr i j a1 a2 p =
         nw_traceback s1 s2 tr (i - 1) j (s1 ! (i - 1) # a1) (CHR ''-'' # a2)
           (p @ [\<lparr>row = i, col = j\<rparr>])"
  using assms by (subst nw_traceback.simps) (simp add: char_before_Some)

lemma nw_step_left:
  assumes "cell_at tr i j = Some LEFT" and "0 < j" "j \<le> length s2"
  shows "nw_traceback s1 s2 tr i j a1 a2 p =
         nw_traceback s1 s2 tr i (j - 1) (CHR ''-'' # a1) (s2 ! (j - 1) # a2)
           (p @ [\<lparr>row = i, col = j\<rparr>])"
  using assms by (subst nw_traceback.simps) (simp add: char_before_Some)

lemma nw_step_done: "nw_traceback s1 s2 tr 0 0 a1 a2 p = Inr (a1, a2, p @ [\<lparr>row = 0, col = 0\<rparr>])"
  by (subst nw_traceback.simps) simp

lemma replay_global_diagonal:
  "cell_at tr i j = Some DIAGONAL \<Longrightarrow> 0 < i \<Longrightarrow> 0 < j \<Longrightarrow>
   replay_global tr i j = map_option ((#) \<lparr>row = i, col = j\<rparr>) (replay_global tr (i - 1) (j - 1))"
  by (subst replay_global.simps) simp

lemma replay_global_up:
  "cell_at tr i j = Some UP \<Longrightarrow> 0 < i \<Longrightarrow>
   replay_global tr i j = map_option ((#) \<lparr>row = i, col = j\<rparr>) (replay_global tr (i - 1) j)"
  by (subst replay_global.simps) simp

lemma replay_global_left:
  "cell_at tr i j = Some LEFT \<Longrightarrow> 0 < j \<Longrightarrow>
   replay_global tr i j = map_option ((#) \<lparr>row = i, col = j\<rparr>) (replay_global tr i (j - 1))"
  by (subst replay_global.simps) simp

lemma replay_global_done: "replay_global tr 0 0 = Some [\<lparr>row = 0, col = 0\<rparr>]"
  by (subst replay_global.simps) simp

lemma nw_ref_move:
  "snd (nw_ref s1 s2 sc (Suc i) 0) = UP"
  "snd (nw_ref s1 s2 sc 0 (Suc j)) = LEFT"
  "snd (nw_ref s1 s2 sc (Suc i) (Suc j)) \<noteq> STOP"
  by (simp_all add: nw_choose_def)

lemma walked_cons:
  "walked (c1 # a1) (c2 # a2) (p @ [x]) w res \<Longrightarrow> walked a1 a2 p (x # w) res"
  unfolding walked_def
  by (elim exE conjE, rule_tac x = "b1 @ [c1]" in exI, rule_tac x = "b2 @ [c2]" in exI) simp

lemma nw_traceback_replay:
  assumes tr: "\<And>i j. i \<le> length s1 \<Longrightarrow> j \<le> length s2 \<Longrightarrow>
                 cell_at tr i j = Some (snd (nw_ref s1 s2 sc i j))"
  shows "i \<le> length s1 \<Longrightarrow> j \<le> length s2 \<Longrightarrow>
         \<exists>w. walked a1 a2 p w (nw_traceback s1 s2 tr i j a1 a2 p) \<and> replay_global tr i j = Some w"
proof (induction "i + j" arbitrary: i j a1 a2 p rule: less_induct)
  case less
  note ij = less.prems
  show ?case
  proof (cases "i = 0 \<and> j = 0")
    case True
    then show ?thesis
      by (auto simp: nw_step_done replay_global_done walked_def)
  next
    case False
    define mv where "mv = snd (nw_ref s1 s2 sc i j)"
    have c: "cell_at tr i j = Some mv"
      unfolding mv_def by (rule tr [OF ij])
    have mv: "(mv = DIAGONAL \<and> 0 < i \<and> 0 < j) \<or> (mv = UP \<and> 0 < i) \<or> (mv = LEFT \<and> 0 < j)"
      using False unfolding mv_def
      by (cases i; cases j) (auto simp: nw_choose_def)
    then consider (D) "mv = DIAGONAL" "0 < i" "0 < j" | (U) "mv = UP" "0 < i" | (L) "mv = LEFT" "0 < j"
      by blast
    then show ?thesis
    proof cases
      case D
      have "\<exists>w. walked (s1 ! (i - 1) # a1) (s2 ! (j - 1) # a2) (p @ [\<lparr>row = i, col = j\<rparr>]) w
                  (nw_traceback s1 s2 tr (i - 1) (j - 1) (s1 ! (i - 1) # a1) (s2 ! (j - 1) # a2)
                     (p @ [\<lparr>row = i, col = j\<rparr>]))
               \<and> replay_global tr (i - 1) (j - 1) = Some w"
        by (rule less.hyps) (use D ij in simp_all)
      then obtain w where w: "walked (s1 ! (i - 1) # a1) (s2 ! (j - 1) # a2) (p @ [\<lparr>row = i, col = j\<rparr>]) w
                  (nw_traceback s1 s2 tr i j a1 a2 p)"
          "replay_global tr (i - 1) (j - 1) = Some w"
        using nw_step_diagonal [OF c [unfolded D(1)] D(2) ij(1) D(3) ij(2)] by auto
      show ?thesis
        using walked_cons [OF w(1)] w(2) replay_global_diagonal [OF c [unfolded D(1)] D(2,3)]
        by auto
    next
      case U
      have "\<exists>w. walked (s1 ! (i - 1) # a1) (CHR ''-'' # a2) (p @ [\<lparr>row = i, col = j\<rparr>]) w
                  (nw_traceback s1 s2 tr (i - 1) j (s1 ! (i - 1) # a1) (CHR ''-'' # a2)
                     (p @ [\<lparr>row = i, col = j\<rparr>]))
               \<and> replay_global tr (i - 1) j = Some w"
        by (rule less.hyps) (use U ij in simp_all)
      then obtain w where w: "walked (s1 ! (i - 1) # a1) (CHR ''-'' # a2) (p @ [\<lparr>row = i, col = j\<rparr>]) w
                  (nw_traceback s1 s2 tr i j a1 a2 p)"
          "replay_global tr (i - 1) j = Some w"
        using nw_step_up [OF c [unfolded U(1)] U(2) ij(1)] by auto
      show ?thesis
        using walked_cons [OF w(1)] w(2) replay_global_up [OF c [unfolded U(1)] U(2)]
        by auto
    next
      case L
      have "\<exists>w. walked (CHR ''-'' # a1) (s2 ! (j - 1) # a2) (p @ [\<lparr>row = i, col = j\<rparr>]) w
                  (nw_traceback s1 s2 tr i (j - 1) (CHR ''-'' # a1) (s2 ! (j - 1) # a2)
                     (p @ [\<lparr>row = i, col = j\<rparr>]))
               \<and> replay_global tr i (j - 1) = Some w"
        by (rule less.hyps) (use L ij in simp_all)
      then obtain w where w: "walked (CHR ''-'' # a1) (s2 ! (j - 1) # a2) (p @ [\<lparr>row = i, col = j\<rparr>]) w
                  (nw_traceback s1 s2 tr i j a1 a2 p)"
          "replay_global tr i (j - 1) = Some w"
        using nw_step_left [OF c [unfolded L(1)] L(2) ij(2)] by auto
      show ?thesis
        using walked_cons [OF w(1)] w(2) replay_global_left [OF c [unfolded L(1)] L(2)]
        by auto
    qed
  qed
qed

lemma sw_step_diagonal:
  assumes "cell_at mx i j = Some v" "0 < v"
    and "cell_at tr i j = Some DIAGONAL" and "0 < i" "i \<le> length s1" and "0 < j" "j \<le> length s2"
  shows "sw_traceback s1 s2 mx tr i j a1 a2 p =
         sw_traceback s1 s2 mx tr (i - 1) (j - 1) (s1 ! (i - 1) # a1) (s2 ! (j - 1) # a2)
           (p @ [\<lparr>row = i, col = j\<rparr>])"
  using assms by (subst sw_traceback.simps) (simp add: char_before_Some)

lemma sw_step_up:
  assumes "cell_at mx i j = Some v" "0 < v"
    and "cell_at tr i j = Some UP" and "0 < i" "i \<le> length s1"
  shows "sw_traceback s1 s2 mx tr i j a1 a2 p =
         sw_traceback s1 s2 mx tr (i - 1) j (s1 ! (i - 1) # a1) (CHR ''-'' # a2)
           (p @ [\<lparr>row = i, col = j\<rparr>])"
  using assms by (subst sw_traceback.simps) (simp add: char_before_Some)

lemma sw_step_left:
  assumes "cell_at mx i j = Some v" "0 < v"
    and "cell_at tr i j = Some LEFT" and "0 < j" "j \<le> length s2"
  shows "sw_traceback s1 s2 mx tr i j a1 a2 p =
         sw_traceback s1 s2 mx tr i (j - 1) (CHR ''-'' # a1) (s2 ! (j - 1) # a2)
           (p @ [\<lparr>row = i, col = j\<rparr>])"
  using assms by (subst sw_traceback.simps) (simp add: char_before_Some)

lemma sw_step_done:
  "cell_at mx i j = Some v \<Longrightarrow> \<not> 0 < v \<Longrightarrow>
   sw_traceback s1 s2 mx tr i j a1 a2 p = Inr (a1, a2, p @ [\<lparr>row = i, col = j\<rparr>])"
  by (subst sw_traceback.simps) simp

lemma replay_local_diagonal:
  "cell_at mx i j = Some v \<Longrightarrow> v \<noteq> 0 \<Longrightarrow> cell_at tr i j = Some DIAGONAL \<Longrightarrow> 0 < i \<Longrightarrow> 0 < j \<Longrightarrow>
   replay_local mx tr i j = map_option ((#) \<lparr>row = i, col = j\<rparr>) (replay_local mx tr (i - 1) (j - 1))"
  by (subst replay_local.simps) simp

lemma replay_local_up:
  "cell_at mx i j = Some v \<Longrightarrow> v \<noteq> 0 \<Longrightarrow> cell_at tr i j = Some UP \<Longrightarrow> 0 < i \<Longrightarrow>
   replay_local mx tr i j = map_option ((#) \<lparr>row = i, col = j\<rparr>) (replay_local mx tr (i - 1) j)"
  by (subst replay_local.simps) simp

lemma replay_local_left:
  "cell_at mx i j = Some v \<Longrightarrow> v \<noteq> 0 \<Longrightarrow> cell_at tr i j = Some LEFT \<Longrightarrow> 0 < j \<Longrightarrow>
   replay_local mx tr i j = map_option ((#) \<lparr>row = i, col = j\<rparr>) (replay_local mx tr i (j - 1))"
  by (subst replay_local.simps) simp

lemma replay_local_done:
  "cell_at mx i j = Some 0 \<Longrightarrow> replay_local mx tr i j = Some [\<lparr>row = i, col = j\<rparr>]"
  by (subst replay_local.simps) simp

lemma sw_choose_move:
  "0 < fst (sw_choose d u l) \<Longrightarrow> snd (sw_choose d u l) \<noteq> STOP"
  by (simp add: sw_choose_def Let_def)

lemma sw_ref_positive:
  assumes "0 < fst (sw_ref s1 s2 sc i j)"
  shows "0 < i" and "0 < j" and "snd (sw_ref s1 s2 sc i j) \<noteq> STOP"
proof -
  obtain i' j' where ij: "i = Suc i'" "j = Suc j'"
    using assms by (cases i; cases j) auto
  then show "0 < i" "0 < j" by simp_all
  from assms show "snd (sw_ref s1 s2 sc i j) \<noteq> STOP"
    unfolding ij sw_ref.simps by (rule sw_choose_move)
qed

lemma walked_done: "walked a1 a2 p [x] (Inr (a1, a2, p @ [x]))"
  by (simp add: walked_def)

lemma sw_traceback_replay:
  assumes mx: "\<And>i j. i \<le> length s1 \<Longrightarrow> j \<le> length s2 \<Longrightarrow>
                 cell_at mx i j = Some (fst (sw_ref s1 s2 sc i j))"
    and tr: "\<And>i j. i \<le> length s1 \<Longrightarrow> j \<le> length s2 \<Longrightarrow>
                 cell_at tr i j = Some (snd (sw_ref s1 s2 sc i j))"
  shows "i \<le> length s1 \<Longrightarrow> j \<le> length s2 \<Longrightarrow>
         \<exists>w. walked a1 a2 p w (sw_traceback s1 s2 mx tr i j a1 a2 p) \<and> replay_local mx tr i j = Some w"
proof (induction "i + j" arbitrary: i j a1 a2 p rule: less_induct)
  case less
  note ij = less.prems
  define v where "v = fst (sw_ref s1 s2 sc i j)"
  define mv where "mv = snd (sw_ref s1 s2 sc i j)"
  have cv: "cell_at mx i j = Some v" unfolding v_def by (rule mx [OF ij])
  have c: "cell_at tr i j = Some mv" unfolding mv_def by (rule tr [OF ij])
  show ?case
  proof (cases "0 < v")
    case False
    with sw_ref_nonneg [of s1 s2 sc i j] have "v = 0" by (simp add: v_def)
    with cv have "replay_local mx tr i j = Some [\<lparr>row = i, col = j\<rparr>]"
      by (simp add: replay_local_done)
    moreover have "walked a1 a2 p [\<lparr>row = i, col = j\<rparr>] (sw_traceback s1 s2 mx tr i j a1 a2 p)"
      unfolding sw_step_done [OF cv False] by (rule walked_done)
    ultimately show ?thesis by blast
  next
    case True
    then have nz: "v \<noteq> 0" by simp
    from True have pos: "0 < i" "0 < j" and ns: "mv \<noteq> STOP"
      unfolding v_def mv_def by (rule sw_ref_positive)+
    then consider (D) "mv = DIAGONAL" | (U) "mv = UP" | (L) "mv = LEFT"
      by (cases mv) auto
    then show ?thesis
    proof cases
      case D
      have "\<exists>w. walked (s1 ! (i - 1) # a1) (s2 ! (j - 1) # a2) (p @ [\<lparr>row = i, col = j\<rparr>]) w
                  (sw_traceback s1 s2 mx tr (i - 1) (j - 1) (s1 ! (i - 1) # a1) (s2 ! (j - 1) # a2)
                     (p @ [\<lparr>row = i, col = j\<rparr>]))
               \<and> replay_local mx tr (i - 1) (j - 1) = Some w"
        by (rule less.hyps) (use pos ij in simp_all)
      then obtain w where w: "walked (s1 ! (i - 1) # a1) (s2 ! (j - 1) # a2) (p @ [\<lparr>row = i, col = j\<rparr>]) w
                  (sw_traceback s1 s2 mx tr i j a1 a2 p)"
          "replay_local mx tr (i - 1) (j - 1) = Some w"
        using sw_step_diagonal [OF cv True c [unfolded D] pos(1) ij(1) pos(2) ij(2)] by auto
      show ?thesis
        using walked_cons [OF w(1)] w(2) replay_local_diagonal [OF cv nz c [unfolded D] pos]
        by auto
    next
      case U
      have "\<exists>w. walked (s1 ! (i - 1) # a1) (CHR ''-'' # a2) (p @ [\<lparr>row = i, col = j\<rparr>]) w
                  (sw_traceback s1 s2 mx tr (i - 1) j (s1 ! (i - 1) # a1) (CHR ''-'' # a2)
                     (p @ [\<lparr>row = i, col = j\<rparr>]))
               \<and> replay_local mx tr (i - 1) j = Some w"
        by (rule less.hyps) (use pos ij in simp_all)
      then obtain w where w: "walked (s1 ! (i - 1) # a1) (CHR ''-'' # a2) (p @ [\<lparr>row = i, col = j\<rparr>]) w
                  (sw_traceback s1 s2 mx tr i j a1 a2 p)"
          "replay_local mx tr (i - 1) j = Some w"
        using sw_step_up [OF cv True c [unfolded U] pos(1) ij(1)] by auto
      show ?thesis
        using walked_cons [OF w(1)] w(2) replay_local_up [OF cv nz c [unfolded U] pos(1)]
        by auto
    next
      case L
      have "\<exists>w. walked (CHR ''-'' # a1) (s2 ! (j - 1) # a2) (p @ [\<lparr>row = i, col = j\<rparr>]) w
                  (sw_traceback s1 s2 mx tr i (j - 1) (CHR ''-'' # a1) (s2 ! (j - 1) # a2)
                     (p @ [\<lparr>row = i, col = j\<rparr>]))
               \<and> replay_local mx tr i (j - 1) = Some w"
        by (rule less.hyps) (use pos ij in simp_all)
      then obtain w where w: "walked (CHR ''-'' # a1) (s2 ! (j - 1) # a2) (p @ [\<lparr>row = i, col = j\<rparr>]) w
                  (sw_traceback s1 s2 mx tr i j a1 a2 p)"
          "replay_local mx tr i (j - 1) = Some w"
        using sw_step_left [OF cv True c [unfolded L] pos(2) ij(2)] by auto
      show ?thesis
        using walked_cons [OF w(1)] w(2) replay_local_left [OF cv nz c [unfolded L] pos(2)]
        by auto
    qed
  qed
qed

lemma descending_single: "descending i j [\<lparr>row = i, col = j\<rparr>]"
  by (simp add: descending_def)

lemma descending_cons:
  assumes "descending i' j' w" and "i' \<le> i" "j' \<le> j" "i' + j' < i + j"
  shows "descending i j (\<lparr>row = i, col = j\<rparr> # w)"
  using assms unfolding descending_def
  by (auto simp: list_all_iff)

lemma replay_global_cases:
  assumes "replay_global tr i j = Some w"
  shows "(i = 0 \<and> j = 0 \<and> w = [\<lparr>row = 0, col = 0\<rparr>]) \<or>
         (\<exists>z. w = \<lparr>row = i, col = j\<rparr> # z \<and>
            ((0 < i \<and> 0 < j \<and> replay_global tr (i - 1) (j - 1) = Some z) \<or>
             (0 < i \<and> replay_global tr (i - 1) j = Some z) \<or>
             (0 < j \<and> replay_global tr i (j - 1) = Some z)))"
  using assms
  by (subst (asm) replay_global.simps)
     (auto split: if_splits option.splits Move.splits)

lemma replay_local_cases:
  assumes "replay_local mx tr i j = Some w"
  shows "w = [\<lparr>row = i, col = j\<rparr>] \<or>
         (\<exists>z. w = \<lparr>row = i, col = j\<rparr> # z \<and>
            ((0 < i \<and> 0 < j \<and> replay_local mx tr (i - 1) (j - 1) = Some z) \<or>
             (0 < i \<and> replay_local mx tr (i - 1) j = Some z) \<or>
             (0 < j \<and> replay_local mx tr i (j - 1) = Some z)))"
  using assms
  by (subst (asm) replay_local.simps)
     (auto split: if_splits option.splits Move.splits)

lemma replay_global_descending:
  "replay_global tr i j = Some w \<Longrightarrow> descending i j w"
proof (induction "i + j" arbitrary: i j w rule: less_induct)
  case less
  have step: "descending i j (\<lparr>row = i, col = j\<rparr> # z)"
    if "replay_global tr i' j' = Some z" "i' \<le> i" "j' \<le> j" "i' + j' < i + j" for i' j' z
    using less.hyps [OF that(4,1)] that(2-4) by (rule descending_cons)
  from replay_global_cases [OF less.prems] show ?case
  proof (elim disjE exE conjE)
    assume "i = 0" "j = 0" "w = [\<lparr>row = 0, col = 0\<rparr>]"
    then show ?thesis by (simp add: descending_single)
  next
    fix z assume "w = \<lparr>row = i, col = j\<rparr> # z" "0 < i" "0 < j"
      "replay_global tr (i - 1) (j - 1) = Some z"
    then show ?thesis using step [of "i - 1" "j - 1" z] by simp
  next
    fix z assume "w = \<lparr>row = i, col = j\<rparr> # z" "0 < i" "replay_global tr (i - 1) j = Some z"
    then show ?thesis using step [of "i - 1" j z] by simp
  next
    fix z assume "w = \<lparr>row = i, col = j\<rparr> # z" "0 < j" "replay_global tr i (j - 1) = Some z"
    then show ?thesis using step [of i "j - 1" z] by simp
  qed
qed

lemma replay_local_descending:
  "replay_local mx tr i j = Some w \<Longrightarrow> descending i j w"
proof (induction "i + j" arbitrary: i j w rule: less_induct)
  case less
  have step: "descending i j (\<lparr>row = i, col = j\<rparr> # z)"
    if "replay_local mx tr i' j' = Some z" "i' \<le> i" "j' \<le> j" "i' + j' < i + j" for i' j' z
    using less.hyps [OF that(4,1)] that(2-4) by (rule descending_cons)
  from replay_local_cases [OF less.prems] show ?case
  proof (elim disjE exE conjE)
    assume "w = [\<lparr>row = i, col = j\<rparr>]"
    then show ?thesis by (simp add: descending_single)
  next
    fix z assume "w = \<lparr>row = i, col = j\<rparr> # z" "0 < i" "0 < j"
      "replay_local mx tr (i - 1) (j - 1) = Some z"
    then show ?thesis using step [of "i - 1" "j - 1" z] by simp
  next
    fix z assume "w = \<lparr>row = i, col = j\<rparr> # z" "0 < i" "replay_local mx tr (i - 1) j = Some z"
    then show ?thesis using step [of "i - 1" j z] by simp
  next
    fix z assume "w = \<lparr>row = i, col = j\<rparr> # z" "0 < j" "replay_local mx tr i (j - 1) = Some z"
    then show ?thesis using step [of i "j - 1" z] by simp
  qed
qed

section \<open>The two runs\<close>

lemma agree_all_cell_at:
  assumes "agree ref n m (\<lambda>r c. True) mx tr" and "i \<le> n" and "j \<le> m"
  shows "cell_at mx i j = Some (fst (ref i j))" and "cell_at tr i j = Some (snd (ref i j))"
  using agree_cell_at [OF assms(1-3)] by simp_all

lemma agree_all_nth:
  assumes "agree ref n m (\<lambda>r c. True) mx tr" and "i \<le> n" and "j \<le> m"
  shows "mx ! i ! j = fst (ref i j)" and "tr ! i ! j = snd (ref i j)"
  using assms unfolding agree_def by simp_all

lemma nw_run:
  "\<exists>r w. runNeedlemanWunsch s1 s2 sc = Inr r \<and>
     agree (nw_ref s1 s2 sc) (length s1) (length s2) (\<lambda>r c. True) (matrix r) (trace r) \<and>
     score r = matrix r ! length s1 ! length s2 \<and>
     path r = rev w \<and>
     replay_global (trace r) (length s1) (length s2) = Some w \<and>
     length (alignedSeq1 r) = length (alignedSeq2 r) \<and>
     length w = Suc (length (alignedSeq1 r)) \<and>
     identity r = calculateIdentity (alignedSeq1 r) (alignedSeq2 r) \<and>
     nw_traceback s1 s2 (trace r) (length s1) (length s2) [] [] [] =
       Inr (alignedSeq1 r, alignedSeq2 r, w)"
proof -
  let ?n = "length s1" and ?m = "length s2"
  define st where "st = nw_fill s1 s2 sc (nw_init ?n ?m sc)"
  have ag: "agree (nw_ref s1 s2 sc) ?n ?m (\<lambda>r c. True) (fst st) (snd st)"
    unfolding st_def by (rule nw_fill_agree)
  have "\<exists>w. walked [] [] [] w (nw_traceback s1 s2 (snd st) ?n ?m [] [] []) \<and>
             replay_global (snd st) ?n ?m = Some w"
    by (rule nw_traceback_replay [where sc = sc]) (simp_all add: agree_all_cell_at [OF ag])
  then obtain w b1 b2 where tb: "nw_traceback s1 s2 (snd st) ?n ?m [] [] [] = Inr (b1, b2, w)"
    and len: "length b1 = length b2" "length w = Suc (length b1)"
    and rp: "replay_global (snd st) ?n ?m = Some w"
    unfolding walked_def by auto
  have run: "runNeedlemanWunsch s1 s2 sc =
      Inr \<lparr>alignedSeq1 = b1, alignedSeq2 = b2, identity = calculateIdentity b1 b2,
           score = fst st ! ?n ! ?m, matrix = fst st, trace = snd st, path = rev w,
           seq1 = s1, seq2 = s2, scoring = sc\<rparr>"
    unfolding runNeedlemanWunsch_def Let_def st_def [symmetric]
    by (simp add: case_prod_beta tb)
  show ?thesis
    unfolding run using ag len rp tb
    by (intro exI [where x = w] exI [where x = "\<lparr>alignedSeq1 = b1, alignedSeq2 = b2,
           identity = calculateIdentity b1 b2,
           score = fst st ! ?n ! ?m, matrix = fst st, trace = snd st, path = rev w,
           seq1 = s1, seq2 = s2, scoring = sc\<rparr>"]) simp
qed

lemma sw_run:
  "\<exists>r w i0 j0. runSmithWaterman s1 s2 sc = Inr r \<and>
     agree (sw_ref s1 s2 sc) (length s1) (length s2) (\<lambda>r c. True) (matrix r) (trace r) \<and>
     i0 \<le> length s1 \<and> j0 \<le> length s2 \<and>
     matrix r ! i0 ! j0 = score r \<and> 0 \<le> score r \<and>
     (score r = 0 \<longrightarrow> i0 = 0 \<and> j0 = 0) \<and>
     (\<forall>i\<le>length s1. \<forall>j\<le>length s2. matrix r ! i ! j \<le> score r \<and>
        (matrix r ! i ! j = score r \<longrightarrow> lex_le i0 j0 i j)) \<and>
     path r = rev w \<and>
     replay_local (matrix r) (trace r) i0 j0 = Some w \<and>
     length (alignedSeq1 r) = length (alignedSeq2 r) \<and>
     length w = Suc (length (alignedSeq1 r)) \<and>
     identity r = calculateIdentity (alignedSeq1 r) (alignedSeq2 r)"
proof -
  let ?n = "length s1" and ?m = "length s2" and ?ref = "sw_ref s1 s2 sc"
  define st where "st = sw_fill s1 s2 sc (sw_init ?n ?m)"
  have inv: "sw_inv s1 s2 sc (Suc ?n) 1 st"
    unfolding st_def by (rule sw_fill_inv)
  have ag: "agree ?ref ?n ?m (\<lambda>r c. True) (sw_matrix st) (sw_trace st)"
    by (rule agree_weaken [where P = "before (Suc ?n) 1"])
       (use inv in \<open>simp_all add: sw_inv_def before_def\<close>)
  from inv have mi: "max_inv ?ref ?n ?m (Suc ?n) 1 st"
    by (simp add: sw_inv_def)
  have all: "before (Suc ?n) 1 r c" if "r \<le> ?n" for r c
    using that by (simp add: before_def)
  from mi have m1: "maxI st \<le> ?n" "maxJ st \<le> ?m"
    and m2: "fst (?ref (maxI st) (maxJ st)) = maxScore st" "0 \<le> maxScore st"
    and m3: "maxScore st = 0 \<Longrightarrow> maxI st = 0 \<and> maxJ st = 0"
    and m4: "\<And>r c. r \<le> ?n \<Longrightarrow> c \<le> ?m \<Longrightarrow> fst (?ref r c) \<le> maxScore st \<and>
        (fst (?ref r c) = maxScore st \<longrightarrow> lex_le (maxI st) (maxJ st) r c)"
    unfolding max_inv_def using all by blast+
  have "\<exists>w. walked [] [] [] w (sw_traceback s1 s2 (sw_matrix st) (sw_trace st) (maxI st) (maxJ st) [] [] []) \<and>
             replay_local (sw_matrix st) (sw_trace st) (maxI st) (maxJ st) = Some w"
    by (rule sw_traceback_replay [where sc = sc]) (simp_all add: agree_all_cell_at [OF ag] m1)
  then obtain w b1 b2 where
    tb: "sw_traceback s1 s2 (sw_matrix st) (sw_trace st) (maxI st) (maxJ st) [] [] [] = Inr (b1, b2, w)"
    and len: "length b1 = length b2" "length w = Suc (length b1)"
    and rp: "replay_local (sw_matrix st) (sw_trace st) (maxI st) (maxJ st) = Some w"
    unfolding walked_def by auto
  have run: "runSmithWaterman s1 s2 sc =
      Inr \<lparr>alignedSeq1 = b1, alignedSeq2 = b2, identity = calculateIdentity b1 b2,
           score = maxScore st, matrix = sw_matrix st, trace = sw_trace st, path = rev w,
           seq1 = s1, seq2 = s2, scoring = sc\<rparr>"
    unfolding runSmithWaterman_def Let_def st_def [symmetric]
    by (simp add: tb)
  show ?thesis
    unfolding run
    using ag len rp m1 m2 m3 m4
    by (intro exI [where x = w] exI [where x = "maxI st"] exI [where x = "maxJ st"]
          exI [where x = "\<lparr>alignedSeq1 = b1, alignedSeq2 = b2,
           identity = calculateIdentity b1 b2,
           score = maxScore st, matrix = sw_matrix st, trace = sw_trace st, path = rev w,
           seq1 = s1, seq2 = s2, scoring = sc\<rparr>"])
       (simp add: agree_all_nth [OF ag])
qed

section \<open>The fill recurrence and its tie-break\<close>

lemma nw_choose_tie_break:
  "nw_choose d u l = (chosen d u l, tie_break d u l)"
  by (simp add: nw_choose_def chosen_def tie_break_def)

lemma sw_choose_clamp:
  "fst (sw_choose d u l) = max 0 (max d (max u l))"
  by (simp add: sw_choose_def Let_def max_def)

lemma sw_choose_stop:
  "fst (sw_choose d u l) = 0 \<Longrightarrow> snd (sw_choose d u l) = STOP"
  by (simp add: sw_choose_def Let_def)

lemma sw_choose_tie_break:
  "0 < fst (sw_choose d u l) \<Longrightarrow> snd (sw_choose d u l) = tie_break d u l"
  by (simp add: sw_choose_def Let_def tie_break_def max_def split: if_splits)

lemma nw_ref_interior:
  assumes ag: "agree (nw_ref s1 s2 sc) n m (\<lambda>r c. True) mx tr"
    and i: "1 \<le> i" "i \<le> n" and j: "1 \<le> j" "j \<le> m"
  shows "nw_ref s1 s2 sc i j =
         nw_choose (cand_diagonal s1 s2 sc mx i j) (cand_up sc mx i j) (cand_left sc mx i j)"
proof -
  obtain i' j' where ij: "i = Suc i'" "j = Suc j'"
    using i j by (cases i; cases j) auto
  have "mx ! i' ! j' = fst (nw_ref s1 s2 sc i' j')"
    "mx ! i' ! Suc j' = fst (nw_ref s1 s2 sc i' (Suc j'))"
    "mx ! Suc i' ! j' = fst (nw_ref s1 s2 sc (Suc i') j')"
    using i j ij by (simp_all add: agree_all_nth [OF ag])
  then show ?thesis
    unfolding ij by (simp add: cand_diagonal_def cand_up_def cand_left_def)
qed

lemma sw_ref_interior:
  assumes ag: "agree (sw_ref s1 s2 sc) n m (\<lambda>r c. True) mx tr"
    and i: "1 \<le> i" "i \<le> n" and j: "1 \<le> j" "j \<le> m"
  shows "sw_ref s1 s2 sc i j =
         sw_choose (cand_diagonal s1 s2 sc mx i j) (cand_up sc mx i j) (cand_left sc mx i j)"
proof -
  obtain i' j' where ij: "i = Suc i'" "j = Suc j'"
    using i j by (cases i; cases j) auto
  have "mx ! i' ! j' = fst (sw_ref s1 s2 sc i' j')"
    "mx ! i' ! Suc j' = fst (sw_ref s1 s2 sc i' (Suc j'))"
    "mx ! Suc i' ! j' = fst (sw_ref s1 s2 sc (Suc i') j')"
    using i j ij by (simp_all add: agree_all_nth [OF ag])
  then show ?thesis
    unfolding ij by (simp add: cand_diagonal_def cand_up_def cand_left_def)
qed

text \<open>
  C1. In both modes the move recorded at an interior cell follows the tie-break
  diagonal, then up, then left, each with \<open>\<ge>\<close>, over the three candidates read from the
  filled matrix. In global mode the cell holds the chosen candidate. In local mode the
  cell holds the clamped score \<open>max(0, diagonal, up, left)\<close>, and the tie-break decides
  the move exactly when that clamped score is positive; otherwise the move is \<open>STOP\<close>.
\<close>

theorem tie_break_recorded:
  assumes "1 \<le> i" "i \<le> length s1" "1 \<le> j" "j \<le> length s2"
  shows "(\<exists>r. runNeedlemanWunsch s1 s2 sc = Inr r \<and>
            trace r ! i ! j =
              tie_break (cand_diagonal s1 s2 sc (matrix r) i j) (cand_up sc (matrix r) i j)
                (cand_left sc (matrix r) i j) \<and>
            matrix r ! i ! j =
              chosen (cand_diagonal s1 s2 sc (matrix r) i j) (cand_up sc (matrix r) i j)
                (cand_left sc (matrix r) i j)) \<and>
         (\<exists>r. runSmithWaterman s1 s2 sc = Inr r \<and>
            matrix r ! i ! j =
              max 0 (max (cand_diagonal s1 s2 sc (matrix r) i j)
                      (max (cand_up sc (matrix r) i j) (cand_left sc (matrix r) i j))) \<and>
            trace r ! i ! j =
              (if 0 < max 0 (max (cand_diagonal s1 s2 sc (matrix r) i j)
                              (max (cand_up sc (matrix r) i j) (cand_left sc (matrix r) i j)))
               then tie_break (cand_diagonal s1 s2 sc (matrix r) i j) (cand_up sc (matrix r) i j)
                      (cand_left sc (matrix r) i j)
               else STOP))"
proof
  from nw_run [of s1 s2 sc] obtain r where run: "runNeedlemanWunsch s1 s2 sc = Inr r"
    and ag: "agree (nw_ref s1 s2 sc) (length s1) (length s2) (\<lambda>r c. True) (matrix r) (trace r)"
    by blast
  have "nw_ref s1 s2 sc i j =
      (chosen (cand_diagonal s1 s2 sc (matrix r) i j) (cand_up sc (matrix r) i j)
         (cand_left sc (matrix r) i j),
       tie_break (cand_diagonal s1 s2 sc (matrix r) i j) (cand_up sc (matrix r) i j)
         (cand_left sc (matrix r) i j))"
    unfolding nw_ref_interior [OF ag assms] by (rule nw_choose_tie_break)
  then show "\<exists>r. runNeedlemanWunsch s1 s2 sc = Inr r \<and>
            trace r ! i ! j =
              tie_break (cand_diagonal s1 s2 sc (matrix r) i j) (cand_up sc (matrix r) i j)
                (cand_left sc (matrix r) i j) \<and>
            matrix r ! i ! j =
              chosen (cand_diagonal s1 s2 sc (matrix r) i j) (cand_up sc (matrix r) i j)
                (cand_left sc (matrix r) i j)"
    using run agree_all_nth [OF ag assms(2,4)] by simp
next
  from sw_run [of s1 s2 sc] obtain r where run: "runSmithWaterman s1 s2 sc = Inr r"
    and ag: "agree (sw_ref s1 s2 sc) (length s1) (length s2) (\<lambda>r c. True) (matrix r) (trace r)"
    by blast
  let ?d = "cand_diagonal s1 s2 sc (matrix r) i j" and ?u = "cand_up sc (matrix r) i j"
    and ?l = "cand_left sc (matrix r) i j"
  have m: "matrix r ! i ! j = fst (sw_choose ?d ?u ?l)"
    and t: "trace r ! i ! j = snd (sw_choose ?d ?u ?l)"
    using agree_all_nth [OF ag assms(2,4)] sw_ref_interior [OF ag assms] by simp_all
  have c: "fst (sw_choose ?d ?u ?l) = max 0 (max ?d (max ?u ?l))"
    by (rule sw_choose_clamp)
  have nn: "0 \<le> fst (sw_choose ?d ?u ?l)"
    by (simp add: sw_choose_clamp)
  have "snd (sw_choose ?d ?u ?l) =
        (if 0 < fst (sw_choose ?d ?u ?l) then tie_break ?d ?u ?l else STOP)"
    using nn sw_choose_stop [of ?d ?u ?l] sw_choose_tie_break [of ?d ?u ?l]
    by (cases "0 < fst (sw_choose ?d ?u ?l)") simp_all
  then have "matrix r ! i ! j = max 0 (max ?d (max ?u ?l)) \<and>
        trace r ! i ! j = (if 0 < max 0 (max ?d (max ?u ?l)) then tie_break ?d ?u ?l else STOP)"
    unfolding m t c by (rule conjI [OF refl])
  with run show "\<exists>r. runSmithWaterman s1 s2 sc = Inr r \<and>
            matrix r ! i ! j =
              max 0 (max (cand_diagonal s1 s2 sc (matrix r) i j)
                      (max (cand_up sc (matrix r) i j) (cand_left sc (matrix r) i j))) \<and>
            trace r ! i ! j =
              (if 0 < max 0 (max (cand_diagonal s1 s2 sc (matrix r) i j)
                              (max (cand_up sc (matrix r) i j) (cand_left sc (matrix r) i j)))
               then tie_break (cand_diagonal s1 s2 sc (matrix r) i j) (cand_up sc (matrix r) i j)
                      (cand_left sc (matrix r) i j)
               else STOP)"
    by blast
qed

text \<open>
  At \<open>AA\<close> against \<open>A\<close> with gap 0 the cell \<open>(2, 1)\<close> has diagonal and up tied at 1 in
  both modes, and both record \<open>DIAGONAL\<close>.
\<close>

theorem tie_break_recorded_witness:
  "(1::nat) \<le> 2 \<and> 2 \<le> length ''AA'' \<and> (1::nat) \<le> 1 \<and> 1 \<le> length ''A'' \<and>
   (\<exists>r. runNeedlemanWunsch ''AA'' ''A'' \<lparr>match = 1, mismatch = -1, gap = 0\<rparr> = Inr r \<and>
      cand_diagonal ''AA'' ''A'' \<lparr>match = 1, mismatch = -1, gap = 0\<rparr> (matrix r) 2 1 = 1 \<and>
      cand_up \<lparr>match = 1, mismatch = -1, gap = 0\<rparr> (matrix r) 2 1 = 1 \<and>
      cand_left \<lparr>match = 1, mismatch = -1, gap = 0\<rparr> (matrix r) 2 1 = 0 \<and>
      trace r ! 2 ! 1 = DIAGONAL \<and> matrix r ! 2 ! 1 = 1) \<and>
   (\<exists>r. runSmithWaterman ''AA'' ''A'' \<lparr>match = 1, mismatch = -1, gap = 0\<rparr> = Inr r \<and>
      cand_diagonal ''AA'' ''A'' \<lparr>match = 1, mismatch = -1, gap = 0\<rparr> (matrix r) 2 1 = 1 \<and>
      cand_up \<lparr>match = 1, mismatch = -1, gap = 0\<rparr> (matrix r) 2 1 = 1 \<and>
      cand_left \<lparr>match = 1, mismatch = -1, gap = 0\<rparr> (matrix r) 2 1 = 0 \<and>
      trace r ! 2 ! 1 = DIAGONAL \<and> matrix r ! 2 ! 1 = 1)"
proof -
  let ?sc = "\<lparr>match = 1, mismatch = -1, gap = 0\<rparr>"
  have nw: "runNeedlemanWunsch ''AA'' ''A'' ?sc =
      Inr \<lparr>alignedSeq1 = ''AA'', alignedSeq2 = ''-A'', identity = 50, score = 1,
           matrix = [[0, 0], [0, 1], [0, 1]],
           trace = [[STOP, LEFT], [UP, DIAGONAL], [UP, DIAGONAL]],
           path = [\<lparr>row = 0, col = 0\<rparr>, \<lparr>row = 1, col = 0\<rparr>, \<lparr>row = 2, col = 1\<rparr>],
           seq1 = ''AA'', seq2 = ''A'', scoring = ?sc\<rparr>"
    by code_simp
  have sw: "runSmithWaterman ''AA'' ''A'' ?sc =
      Inr \<lparr>alignedSeq1 = ''A'', alignedSeq2 = ''A'', identity = 100, score = 1,
           matrix = [[0, 0], [0, 1], [0, 1]],
           trace = [[STOP, STOP], [STOP, DIAGONAL], [STOP, DIAGONAL]],
           path = [\<lparr>row = 0, col = 0\<rparr>, \<lparr>row = 1, col = 1\<rparr>],
           seq1 = ''AA'', seq2 = ''A'', scoring = ?sc\<rparr>"
    by code_simp
  have h: "(1::nat) \<le> 2" "2 \<le> length ''AA''" "(1::nat) \<le> 1" "1 \<le> length ''A''"
    by simp_all
  note t = tie_break_recorded [OF h, of ?sc]
  from t obtain r where r: "runNeedlemanWunsch ''AA'' ''A'' ?sc = Inr r"
    and tr: "trace r ! 2 ! 1 =
        tie_break (cand_diagonal ''AA'' ''A'' ?sc (matrix r) 2 1) (cand_up ?sc (matrix r) 2 1)
          (cand_left ?sc (matrix r) 2 1)"
    and mx: "matrix r ! 2 ! 1 =
        chosen (cand_diagonal ''AA'' ''A'' ?sc (matrix r) 2 1) (cand_up ?sc (matrix r) 2 1)
          (cand_left ?sc (matrix r) 2 1)"
    by blast
  from r nw have m: "matrix r = [[0, 0], [0, 1], [0, 1]]" by auto
  have c: "cand_diagonal ''AA'' ''A'' ?sc (matrix r) 2 1 = 1" "cand_up ?sc (matrix r) 2 1 = 1"
    "cand_left ?sc (matrix r) 2 1 = 0"
    unfolding m by (simp_all add: cand_diagonal_def cand_up_def cand_left_def eval_nat_numeral)
  have "trace r ! 2 ! 1 = DIAGONAL" "matrix r ! 2 ! 1 = 1"
    using tr mx unfolding c by (simp_all add: tie_break_def chosen_def)
  with r c have 1: "\<exists>r. runNeedlemanWunsch ''AA'' ''A'' ?sc = Inr r \<and>
      cand_diagonal ''AA'' ''A'' ?sc (matrix r) 2 1 = 1 \<and> cand_up ?sc (matrix r) 2 1 = 1 \<and>
      cand_left ?sc (matrix r) 2 1 = 0 \<and> trace r ! 2 ! 1 = DIAGONAL \<and> matrix r ! 2 ! 1 = 1"
    by blast
  from t obtain r' where r': "runSmithWaterman ''AA'' ''A'' ?sc = Inr r'"
    and mx': "matrix r' ! 2 ! 1 =
        max 0 (max (cand_diagonal ''AA'' ''A'' ?sc (matrix r') 2 1)
                (max (cand_up ?sc (matrix r') 2 1) (cand_left ?sc (matrix r') 2 1)))"
    and tr': "trace r' ! 2 ! 1 =
        (if 0 < max 0 (max (cand_diagonal ''AA'' ''A'' ?sc (matrix r') 2 1)
                        (max (cand_up ?sc (matrix r') 2 1) (cand_left ?sc (matrix r') 2 1)))
         then tie_break (cand_diagonal ''AA'' ''A'' ?sc (matrix r') 2 1)
                (cand_up ?sc (matrix r') 2 1) (cand_left ?sc (matrix r') 2 1)
         else STOP)"
    by blast
  from r' sw have m': "matrix r' = [[0, 0], [0, 1], [0, 1]]" by auto
  have c': "cand_diagonal ''AA'' ''A'' ?sc (matrix r') 2 1 = 1" "cand_up ?sc (matrix r') 2 1 = 1"
    "cand_left ?sc (matrix r') 2 1 = 0"
    unfolding m' by (simp_all add: cand_diagonal_def cand_up_def cand_left_def eval_nat_numeral)
  have "trace r' ! 2 ! 1 = DIAGONAL" "matrix r' ! 2 ! 1 = 1"
    using tr' mx' unfolding c' by (simp_all add: tie_break_def)
  with r' c' have 2: "\<exists>r. runSmithWaterman ''AA'' ''A'' ?sc = Inr r \<and>
      cand_diagonal ''AA'' ''A'' ?sc (matrix r) 2 1 = 1 \<and> cand_up ?sc (matrix r) 2 1 = 1 \<and>
      cand_left ?sc (matrix r) 2 1 = 0 \<and> trace r ! 2 ! 1 = DIAGONAL \<and> matrix r ! 2 ! 1 = 1"
    by blast
  from h 1 2 show ?thesis by (intro conjI)
qed

section \<open>Local clamp, global boundary, lengths\<close>

text \<open>
  C2. In local mode an interior cell holds \<open>max(0, diagonal, up, left)\<close>. When that value
  is 0 the recorded move is \<open>STOP\<close>, whatever the candidates are; when it is positive
  the move is the tie-break over the three raw candidates.
\<close>

theorem local_clamp_and_stop:
  assumes "1 \<le> i" "i \<le> length s1" "1 \<le> j" "j \<le> length s2"
  shows "\<exists>r. runSmithWaterman s1 s2 sc = Inr r \<and>
           matrix r ! i ! j =
             max 0 (max (cand_diagonal s1 s2 sc (matrix r) i j)
                     (max (cand_up sc (matrix r) i j) (cand_left sc (matrix r) i j))) \<and>
           (matrix r ! i ! j = 0 \<longrightarrow> trace r ! i ! j = STOP) \<and>
           (0 < matrix r ! i ! j \<longrightarrow>
              trace r ! i ! j =
                tie_break (cand_diagonal s1 s2 sc (matrix r) i j) (cand_up sc (matrix r) i j)
                  (cand_left sc (matrix r) i j))"
proof -
  from sw_run [of s1 s2 sc] obtain r where run: "runSmithWaterman s1 s2 sc = Inr r"
    and ag: "agree (sw_ref s1 s2 sc) (length s1) (length s2) (\<lambda>r c. True) (matrix r) (trace r)"
    by blast
  let ?d = "cand_diagonal s1 s2 sc (matrix r) i j" and ?u = "cand_up sc (matrix r) i j"
    and ?l = "cand_left sc (matrix r) i j"
  have m: "matrix r ! i ! j = fst (sw_choose ?d ?u ?l)"
    and t: "trace r ! i ! j = snd (sw_choose ?d ?u ?l)"
    using agree_all_nth [OF ag assms(2,4)] sw_ref_interior [OF ag assms] by simp_all
  have "matrix r ! i ! j = max 0 (max ?d (max ?u ?l))"
    unfolding m by (rule sw_choose_clamp)
  moreover have "matrix r ! i ! j = 0 \<longrightarrow> trace r ! i ! j = STOP"
    unfolding m t using sw_choose_stop by blast
  moreover have "0 < matrix r ! i ! j \<longrightarrow> trace r ! i ! j = tie_break ?d ?u ?l"
    unfolding m t using sw_choose_tie_break by blast
  ultimately show ?thesis using run by blast
qed

theorem local_clamp_and_stop_witness:
  "(1::nat) \<le> 1 \<and> 1 \<le> length ''AC'' \<and> (1::nat) \<le> 1 \<and> 1 \<le> length ''GT'' \<and>
   (\<exists>r. runSmithWaterman ''AC'' ''GT'' \<lparr>match = 1, mismatch = -1, gap = 0\<rparr> = Inr r \<and>
      matrix r ! 1 ! 1 =
        max 0 (max (cand_diagonal ''AC'' ''GT'' \<lparr>match = 1, mismatch = -1, gap = 0\<rparr> (matrix r) 1 1)
                (max (cand_up \<lparr>match = 1, mismatch = -1, gap = 0\<rparr> (matrix r) 1 1)
                     (cand_left \<lparr>match = 1, mismatch = -1, gap = 0\<rparr> (matrix r) 1 1))) \<and>
      (matrix r ! 1 ! 1 = 0 \<longrightarrow> trace r ! 1 ! 1 = STOP) \<and>
      (0 < matrix r ! 1 ! 1 \<longrightarrow>
         trace r ! 1 ! 1 =
           tie_break (cand_diagonal ''AC'' ''GT'' \<lparr>match = 1, mismatch = -1, gap = 0\<rparr> (matrix r) 1 1)
             (cand_up \<lparr>match = 1, mismatch = -1, gap = 0\<rparr> (matrix r) 1 1)
             (cand_left \<lparr>match = 1, mismatch = -1, gap = 0\<rparr> (matrix r) 1 1)))"
  using local_clamp_and_stop [of 1 "''AC''" 1 "''GT''" "\<lparr>match = 1, mismatch = -1, gap = 0\<rparr>"]
  by simp

text \<open>
  C6. In global mode column 0 holds \<open>i * gap\<close> with move \<open>UP\<close> below the corner, row 0
  holds \<open>j * gap\<close> with move \<open>LEFT\<close> right of the corner, and the returned score is the
  bottom-right cell.
\<close>

theorem global_boundary_and_score:
  "\<exists>r. runNeedlemanWunsch s1 s2 sc = Inr r \<and>
     (\<forall>i. 1 \<le> i \<and> i \<le> length s1 \<longrightarrow>
        matrix r ! i ! 0 = int i * gap sc \<and> trace r ! i ! 0 = UP) \<and>
     (\<forall>j. 1 \<le> j \<and> j \<le> length s2 \<longrightarrow>
        matrix r ! 0 ! j = int j * gap sc \<and> trace r ! 0 ! j = LEFT) \<and>
     score r = matrix r ! length s1 ! length s2"
proof -
  from nw_run [of s1 s2 sc] obtain r where run: "runNeedlemanWunsch s1 s2 sc = Inr r"
    and ag: "agree (nw_ref s1 s2 sc) (length s1) (length s2) (\<lambda>r c. True) (matrix r) (trace r)"
    and sc: "score r = matrix r ! length s1 ! length s2"
    by blast
  have col: "matrix r ! i ! 0 = int i * gap sc \<and> trace r ! i ! 0 = UP"
    if "1 \<le> i \<and> i \<le> length s1" for i
  proof -
    from that obtain i' where "i = Suc i'" by (cases i) auto
    then show ?thesis using that agree_all_nth [OF ag, of i 0] by simp
  qed
  have row: "matrix r ! 0 ! j = int j * gap sc \<and> trace r ! 0 ! j = LEFT"
    if "1 \<le> j \<and> j \<le> length s2" for j
  proof -
    from that obtain j' where "j = Suc j'" by (cases j) auto
    then show ?thesis using that agree_all_nth [OF ag, of 0 j] by simp
  qed
  from run col row sc show ?thesis by blast
qed

theorem global_boundary_and_score_witness:
  "\<exists>r. runNeedlemanWunsch ''ACGT'' ''AC'' \<lparr>match = 1, mismatch = -1, gap = -2\<rparr> = Inr r \<and>
     matrix r ! 3 ! 0 = -6 \<and> trace r ! 3 ! 0 = UP \<and>
     matrix r ! 0 ! 2 = -4 \<and> trace r ! 0 ! 2 = LEFT \<and>
     score r = matrix r ! 4 ! 2"
proof -
  from global_boundary_and_score [of "''ACGT''" "''AC''" "\<lparr>match = 1, mismatch = -1, gap = -2\<rparr>"]
  obtain r where r: "runNeedlemanWunsch ''ACGT'' ''AC'' \<lparr>match = 1, mismatch = -1, gap = -2\<rparr> = Inr r"
    and col: "\<And>i. 1 \<le> i \<and> i \<le> length ''ACGT'' \<Longrightarrow>
        matrix r ! i ! 0 = int i * gap \<lparr>match = 1, mismatch = -1, gap = -2\<rparr> \<and> trace r ! i ! 0 = UP"
    and row: "\<And>j. 1 \<le> j \<and> j \<le> length ''AC'' \<Longrightarrow>
        matrix r ! 0 ! j = int j * gap \<lparr>match = 1, mismatch = -1, gap = -2\<rparr> \<and> trace r ! 0 ! j = LEFT"
    and sc: "score r = matrix r ! length ''ACGT'' ! length ''AC''"
    by blast
  from col [of 3] row [of 2] sc r show ?thesis by (simp add: eval_nat_numeral)
qed

text \<open>
  C7. In both modes the two aligned strings have the same length, and the stored path
  has exactly one cell more than there are aligned positions.
\<close>

theorem aligned_lengths_and_path:
  "(\<exists>r. runNeedlemanWunsch s1 s2 sc = Inr r \<and>
      length (alignedSeq1 r) = length (alignedSeq2 r) \<and>
      length (alignedSeq1 r) = length (path r) - 1 \<and> path r \<noteq> []) \<and>
   (\<exists>r. runSmithWaterman s1 s2 sc = Inr r \<and>
      length (alignedSeq1 r) = length (alignedSeq2 r) \<and>
      length (alignedSeq1 r) = length (path r) - 1 \<and> path r \<noteq> [])"
proof
  from nw_run [of s1 s2 sc] obtain r w where "runNeedlemanWunsch s1 s2 sc = Inr r"
    "path r = rev w" "length (alignedSeq1 r) = length (alignedSeq2 r)"
    "length w = Suc (length (alignedSeq1 r))"
    by blast
  then show "\<exists>r. runNeedlemanWunsch s1 s2 sc = Inr r \<and>
      length (alignedSeq1 r) = length (alignedSeq2 r) \<and>
      length (alignedSeq1 r) = length (path r) - 1 \<and> path r \<noteq> []"
    by (intro exI [of _ r]) auto
next
  from sw_run [of s1 s2 sc] obtain r w where "runSmithWaterman s1 s2 sc = Inr r"
    "path r = rev w" "length (alignedSeq1 r) = length (alignedSeq2 r)"
    "length w = Suc (length (alignedSeq1 r))"
    by blast
  then show "\<exists>r. runSmithWaterman s1 s2 sc = Inr r \<and>
      length (alignedSeq1 r) = length (alignedSeq2 r) \<and>
      length (alignedSeq1 r) = length (path r) - 1 \<and> path r \<noteq> []"
    by (intro exI [of _ r]) auto
qed

section \<open>Replay and totality of the traceback\<close>

lemma descending_weaken:
  "descending i j w \<Longrightarrow> i \<le> n \<Longrightarrow> j \<le> m \<Longrightarrow>
   list_all (\<lambda>c. row c \<le> n \<and> col c \<le> m) w"
  unfolding descending_def by (auto simp: list_all_iff)

lemma descending_last_rev:
  "descending i j w \<Longrightarrow> rev w \<noteq> [] \<and> last (rev w) = \<lparr>row = i, col = j\<rparr>"
  unfolding descending_def by (cases w) auto

lemma first_maximumI:
  assumes "i0 \<le> n" "j0 \<le> m"
    and "\<And>i j. i \<le> n \<Longrightarrow> j \<le> m \<Longrightarrow>
           mx ! i ! j \<le> v \<and> (mx ! i ! j = v \<longrightarrow> lex_le i0 j0 i j)"
    and "mx ! i0 ! j0 = v"
  shows "first_maximum mx n m i0 j0"
  using assms unfolding first_maximum_def by simp

text \<open>
  C9. Replaying the returned trace grid from the start cell of the traceback, (n, m) in
  global mode and the first cell holding the maximum in local mode, visits the cells of
  the stored path in reverse order.
\<close>

theorem replay_reproduces_path:
  "(\<exists>r. runNeedlemanWunsch s1 s2 sc = Inr r \<and>
      replay_global (trace r) (length s1) (length s2) = Some (rev (path r))) \<and>
   (\<exists>r i0 j0. runSmithWaterman s1 s2 sc = Inr r \<and>
      first_maximum (matrix r) (length s1) (length s2) i0 j0 \<and>
      replay_local (matrix r) (trace r) i0 j0 = Some (rev (path r)))"
proof
  from nw_run [of s1 s2 sc] obtain r w where "runNeedlemanWunsch s1 s2 sc = Inr r"
    "path r = rev w" "replay_global (trace r) (length s1) (length s2) = Some w"
    by blast
  then show "\<exists>r. runNeedlemanWunsch s1 s2 sc = Inr r \<and>
      replay_global (trace r) (length s1) (length s2) = Some (rev (path r))"
    by (intro exI [of _ r]) simp
next
  from sw_run [of s1 s2 sc] obtain r w i0 j0 where run: "runSmithWaterman s1 s2 sc = Inr r"
    and i0: "i0 \<le> length s1" "j0 \<le> length s2" "matrix r ! i0 ! j0 = score r"
    and mx: "\<forall>i\<le>length s1. \<forall>j\<le>length s2. matrix r ! i ! j \<le> score r \<and>
        (matrix r ! i ! j = score r \<longrightarrow> lex_le i0 j0 i j)"
    and p: "path r = rev w" "replay_local (matrix r) (trace r) i0 j0 = Some w"
    by blast
  have "first_maximum (matrix r) (length s1) (length s2) i0 j0"
    by (rule first_maximumI [OF i0(1,2) _ i0(3)]) (use mx in blast)
  with run p show "\<exists>r i0 j0. runSmithWaterman s1 s2 sc = Inr r \<and>
      first_maximum (matrix r) (length s1) (length s2) i0 j0 \<and>
      replay_local (matrix r) (trace r) i0 j0 = Some (rev (path r))"
    by (intro exI [of _ r] exI [of _ i0] exI [of _ j0]) simp
qed

theorem replay_reproduces_path_witness:
  "(\<exists>r. runNeedlemanWunsch ''GATTACA'' ''GCATGCA'' \<lparr>match = 1, mismatch = -1, gap = -1\<rparr> = Inr r \<and>
      replay_global (trace r) (length ''GATTACA'') (length ''GCATGCA'') = Some (rev (path r))) \<and>
   (\<exists>r i0 j0. runSmithWaterman ''GATTACA'' ''GCATGCA'' \<lparr>match = 1, mismatch = -1, gap = -1\<rparr> = Inr r \<and>
      first_maximum (matrix r) (length ''GATTACA'') (length ''GCATGCA'') i0 j0 \<and>
      replay_local (matrix r) (trace r) i0 j0 = Some (rev (path r)))"
  by (rule replay_reproduces_path [of "''GATTACA''" "''GCATGCA''" "\<lparr>match = 1, mismatch = -1, gap = -1\<rparr>"])

text \<open>
  C10. Both traceback loops return for every input and every scoring scheme, and no read
  of theirs leaves its array: the run ends in \<open>Inr\<close>. Every cell they visit lies inside the
  grid, and \<open>row + col\<close> falls strictly from each visited cell to the next, so along the
  stored path, which is the visit order reversed, it rises strictly. The grids are what
  makes this so: in global mode column 0 records \<open>UP\<close> and row 0 records \<open>LEFT\<close> away from
  the corner and no cell but the corner records \<open>STOP\<close>; in local mode a cell with a
  positive value lies off row 0 and column 0 and does not record \<open>STOP\<close>.
\<close>

theorem traceback_total:
  "(\<exists>r. runNeedlemanWunsch s1 s2 sc = Inr r \<and>
      list_all (\<lambda>c. row c \<le> length s1 \<and> col c \<le> length s2) (path r) \<and>
      sorted_wrt (\<lambda>a b. row a + col a < row b + col b) (path r) \<and>
      (\<forall>i\<in>{..length s1}. \<forall>j\<in>{..length s2}.
         (0 < i \<and> j = 0 \<longrightarrow> trace r ! i ! j = UP) \<and>
         (i = 0 \<and> 0 < j \<longrightarrow> trace r ! i ! j = LEFT) \<and>
         (0 < i \<or> 0 < j \<longrightarrow> trace r ! i ! j \<noteq> STOP))) \<and>
   (\<exists>r. runSmithWaterman s1 s2 sc = Inr r \<and>
      list_all (\<lambda>c. row c \<le> length s1 \<and> col c \<le> length s2) (path r) \<and>
      sorted_wrt (\<lambda>a b. row a + col a < row b + col b) (path r) \<and>
      (\<forall>i\<in>{..length s1}. \<forall>j\<in>{..length s2}.
         0 < matrix r ! i ! j \<longrightarrow> 0 < i \<and> 0 < j \<and> trace r ! i ! j \<noteq> STOP))"
proof
  from nw_run [of s1 s2 sc] obtain r w where run: "runNeedlemanWunsch s1 s2 sc = Inr r"
    and ag: "agree (nw_ref s1 s2 sc) (length s1) (length s2) (\<lambda>r c. True) (matrix r) (trace r)"
    and p: "path r = rev w" and rp: "replay_global (trace r) (length s1) (length s2) = Some w"
    by blast
  have d: "descending (length s1) (length s2) w"
    by (rule replay_global_descending [OF rp])
  have "list_all (\<lambda>c. row c \<le> length s1 \<and> col c \<le> length s2) (path r)"
    using descending_weaken [OF d le_refl le_refl] by (simp add: p)
  moreover have "sorted_wrt (\<lambda>a b. row a + col a < row b + col b) (path r)"
    using d by (simp add: p descending_def sorted_wrt_rev)
  moreover have "\<forall>i\<in>{..length s1}. \<forall>j\<in>{..length s2}.
         (0 < i \<and> j = 0 \<longrightarrow> trace r ! i ! j = UP) \<and>
         (i = 0 \<and> 0 < j \<longrightarrow> trace r ! i ! j = LEFT) \<and>
         (0 < i \<or> 0 < j \<longrightarrow> trace r ! i ! j \<noteq> STOP)"
  proof (intro ballI)
    fix i j assume "i \<in> {..length s1}" "j \<in> {..length s2}"
    then have t: "trace r ! i ! j = snd (nw_ref s1 s2 sc i j)"
      using agree_all_nth [OF ag, of i j] by simp
    show "(0 < i \<and> j = 0 \<longrightarrow> trace r ! i ! j = UP) \<and>
         (i = 0 \<and> 0 < j \<longrightarrow> trace r ! i ! j = LEFT) \<and>
         (0 < i \<or> 0 < j \<longrightarrow> trace r ! i ! j \<noteq> STOP)"
      unfolding t using nw_ref_move [of s1 s2 sc]
      by (cases i; cases j) simp_all
  qed
  ultimately show "\<exists>r. runNeedlemanWunsch s1 s2 sc = Inr r \<and>
      list_all (\<lambda>c. row c \<le> length s1 \<and> col c \<le> length s2) (path r) \<and>
      sorted_wrt (\<lambda>a b. row a + col a < row b + col b) (path r) \<and>
      (\<forall>i\<in>{..length s1}. \<forall>j\<in>{..length s2}.
         (0 < i \<and> j = 0 \<longrightarrow> trace r ! i ! j = UP) \<and>
         (i = 0 \<and> 0 < j \<longrightarrow> trace r ! i ! j = LEFT) \<and>
         (0 < i \<or> 0 < j \<longrightarrow> trace r ! i ! j \<noteq> STOP))"
    using run by blast
next
  from sw_run [of s1 s2 sc] obtain r w i0 j0 where run: "runSmithWaterman s1 s2 sc = Inr r"
    and ag: "agree (sw_ref s1 s2 sc) (length s1) (length s2) (\<lambda>r c. True) (matrix r) (trace r)"
    and i0: "i0 \<le> length s1" "j0 \<le> length s2"
    and p: "path r = rev w" and rp: "replay_local (matrix r) (trace r) i0 j0 = Some w"
    by blast
  have d: "descending i0 j0 w"
    by (rule replay_local_descending [OF rp])
  have "list_all (\<lambda>c. row c \<le> length s1 \<and> col c \<le> length s2) (path r)"
    using descending_weaken [OF d i0] by (simp add: p)
  moreover have "sorted_wrt (\<lambda>a b. row a + col a < row b + col b) (path r)"
    using d by (simp add: p descending_def sorted_wrt_rev)
  moreover have "\<forall>i\<in>{..length s1}. \<forall>j\<in>{..length s2}.
         0 < matrix r ! i ! j \<longrightarrow> 0 < i \<and> 0 < j \<and> trace r ! i ! j \<noteq> STOP"
  proof (intro ballI impI)
    fix i j assume ij: "i \<in> {..length s1}" "j \<in> {..length s2}" and pos: "0 < matrix r ! i ! j"
    from ij have t: "trace r ! i ! j = snd (sw_ref s1 s2 sc i j)"
      and m: "matrix r ! i ! j = fst (sw_ref s1 s2 sc i j)"
      using agree_all_nth [OF ag, of i j] by simp_all
    from pos show "0 < i \<and> 0 < j \<and> trace r ! i ! j \<noteq> STOP"
      unfolding t m using sw_ref_positive [of s1 s2 sc i j] by simp
  qed
  ultimately show "\<exists>r. runSmithWaterman s1 s2 sc = Inr r \<and>
      list_all (\<lambda>c. row c \<le> length s1 \<and> col c \<le> length s2) (path r) \<and>
      sorted_wrt (\<lambda>a b. row a + col a < row b + col b) (path r) \<and>
      (\<forall>i\<in>{..length s1}. \<forall>j\<in>{..length s2}.
         0 < matrix r ! i ! j \<longrightarrow> 0 < i \<and> 0 < j \<and> trace r ! i ! j \<noteq> STOP)"
    using run by blast
qed

theorem traceback_total_witness:
  "(\<exists>r. runNeedlemanWunsch ''AC'' ''GT'' \<lparr>match = 1, mismatch = 3, gap = 2\<rparr> = Inr r \<and>
      list_all (\<lambda>c. row c \<le> 2 \<and> col c \<le> 2) (path r) \<and>
      sorted_wrt (\<lambda>a b. row a + col a < row b + col b) (path r) \<and>
      trace r ! 2 ! 0 = UP \<and> trace r ! 0 ! 2 = LEFT \<and> trace r ! 2 ! 2 \<noteq> STOP) \<and>
   (\<exists>r. runSmithWaterman ''AC'' ''GT'' \<lparr>match = 1, mismatch = 3, gap = 2\<rparr> = Inr r \<and>
      list_all (\<lambda>c. row c \<le> 2 \<and> col c \<le> 2) (path r) \<and>
      sorted_wrt (\<lambda>a b. row a + col a < row b + col b) (path r))"
proof -
  let ?sc = "\<lparr>match = 1, mismatch = 3, gap = 2\<rparr>"
  have len: "length ''AC'' = 2" "length ''GT'' = 2" by simp_all
  note t = traceback_total [of "''AC''" "''GT''" ?sc, unfolded len]
  from t obtain r where r: "runNeedlemanWunsch ''AC'' ''GT'' ?sc = Inr r"
    "list_all (\<lambda>c. row c \<le> 2 \<and> col c \<le> 2) (path r)"
    "sorted_wrt (\<lambda>a b. row a + col a < row b + col b) (path r)"
    and g: "\<forall>i\<in>{..2}. \<forall>j\<in>{..2}.
         (0 < i \<and> j = 0 \<longrightarrow> trace r ! i ! j = UP) \<and>
         (i = 0 \<and> 0 < j \<longrightarrow> trace r ! i ! j = LEFT) \<and>
         (0 < i \<or> 0 < j \<longrightarrow> trace r ! i ! j \<noteq> STOP)"
    by blast
  have "trace r ! 2 ! 0 = UP" "trace r ! 0 ! 2 = LEFT" "trace r ! 2 ! 2 \<noteq> STOP"
    using g [rule_format, of 2 0] g [rule_format, of 0 2] g [rule_format, of 2 2] by simp_all
  with r have 1: "\<exists>r. runNeedlemanWunsch ''AC'' ''GT'' ?sc = Inr r \<and>
      list_all (\<lambda>c. row c \<le> 2 \<and> col c \<le> 2) (path r) \<and>
      sorted_wrt (\<lambda>a b. row a + col a < row b + col b) (path r) \<and>
      trace r ! 2 ! 0 = UP \<and> trace r ! 0 ! 2 = LEFT \<and> trace r ! 2 ! 2 \<noteq> STOP"
    by blast
  from t have 2: "\<exists>r. runSmithWaterman ''AC'' ''GT'' ?sc = Inr r \<and>
      list_all (\<lambda>c. row c \<le> 2 \<and> col c \<le> 2) (path r) \<and>
      sorted_wrt (\<lambda>a b. row a + col a < row b + col b) (path r)"
    by blast
  from 1 2 show ?thesis by (rule conjI)
qed

section \<open>Local score and start cell\<close>

lemma agree_cells:
  assumes "agree ref n m P mx tr"
  shows "set (concat mx) = {mx ! i ! j | i j. i \<le> n \<and> j \<le> m}"
proof -
  have len: "length mx = Suc n" and rows: "\<And>r. r \<le> n \<Longrightarrow> length (mx ! r) = Suc m"
    using assms unfolding agree_def by auto
  have "set (concat mx) = (\<Union>i\<in>{..n}. set (mx ! i))"
    by (auto simp: set_conv_nth [of mx] len less_Suc_eq_le)
  also have "\<dots> = (\<Union>i\<in>{..n}. {mx ! i ! j | j. j \<le> m})"
    by (rule SUP_cong [OF refl]) (auto simp: set_conv_nth rows less_Suc_eq_le)
  also have "\<dots> = {mx ! i ! j | i j. i \<le> n \<and> j \<le> m}"
    by auto
  finally show ?thesis .
qed

lemma Max_cells:
  assumes ag: "agree ref n m P mx tr" and "i0 \<le> n" "j0 \<le> m"
    and le: "\<And>i j. i \<le> n \<Longrightarrow> j \<le> m \<Longrightarrow> mx ! i ! j \<le> mx ! i0 ! j0"
  shows "Max (set (concat mx)) = mx ! i0 ! j0"
proof (rule Max_eqI)
  show "finite (set (concat mx))" by simp
  show "mx ! i0 ! j0 \<in> set (concat mx)"
    unfolding agree_cells [OF ag] using assms(2,3) by blast
  fix y assume "y \<in> set (concat mx)"
  then show "y \<le> mx ! i0 ! j0"
    unfolding agree_cells [OF ag] using le by blast
qed

lemma sw_run_start:
  "\<exists>r. runSmithWaterman s1 s2 sc = Inr r \<and>
     path r \<noteq> [] \<and>
     first_maximum (matrix r) (length s1) (length s2) (row (last (path r))) (col (last (path r))) \<and>
     matrix r ! row (last (path r)) ! col (last (path r)) = score r \<and>
     Max (set (concat (matrix r))) = score r \<and>
     0 \<le> score r \<and>
     (score r = 0 \<longrightarrow>
        alignedSeq1 r = [] \<and> alignedSeq2 r = [] \<and> path r = [\<lparr>row = 0, col = 0\<rparr>])"
proof -
  from sw_run [of s1 s2 sc] obtain r w i0 j0 where run: "runSmithWaterman s1 s2 sc = Inr r"
    and ag: "agree (sw_ref s1 s2 sc) (length s1) (length s2) (\<lambda>r c. True) (matrix r) (trace r)"
    and i0: "i0 \<le> length s1" "j0 \<le> length s2" "matrix r ! i0 ! j0 = score r"
    and nn: "0 \<le> score r" and z: "score r = 0 \<longrightarrow> i0 = 0 \<and> j0 = 0"
    and mx: "\<forall>i\<le>length s1. \<forall>j\<le>length s2. matrix r ! i ! j \<le> score r \<and>
        (matrix r ! i ! j = score r \<longrightarrow> lex_le i0 j0 i j)"
    and p: "path r = rev w" "replay_local (matrix r) (trace r) i0 j0 = Some w"
    and len: "length (alignedSeq1 r) = length (alignedSeq2 r)"
      "length w = Suc (length (alignedSeq1 r))"
    by blast
  have d: "descending i0 j0 w"
    by (rule replay_local_descending [OF p(2)])
  have last: "path r \<noteq> []" "last (path r) = \<lparr>row = i0, col = j0\<rparr>"
    using descending_last_rev [OF d] by (simp_all add: p(1))
  have fm: "first_maximum (matrix r) (length s1) (length s2) i0 j0"
    by (rule first_maximumI [OF i0(1,2) _ i0(3)]) (use mx in blast)
  have mm: "Max (set (concat (matrix r))) = score r"
    unfolding i0(3) [symmetric]
    by (rule Max_cells [OF ag i0(1,2)]) (use mx i0(3) in simp)
  have zero: "alignedSeq1 r = [] \<and> alignedSeq2 r = [] \<and> path r = [\<lparr>row = 0, col = 0\<rparr>]"
    if "score r = 0"
  proof -
    from that z have [simp]: "i0 = 0" "j0 = 0" by simp_all
    have "cell_at (matrix r) 0 0 = Some 0"
      using agree_all_cell_at(1) [OF ag, of 0 0] by simp
    then have "replay_local (matrix r) (trace r) 0 0 = Some [\<lparr>row = 0, col = 0\<rparr>]"
      by (rule replay_local_done)
    with p(2) have w: "w = [\<lparr>row = 0, col = 0\<rparr>]" by simp
    with len p(1) show ?thesis by simp
  qed
  show ?thesis
    using run last fm i0(3) mm nn zero by (intro exI [of _ r]) simp
qed

text \<open>
  C4. In local mode the returned score is the maximum over the whole filled matrix. The
  traceback starts at the last cell of the stored path (the path is the visit order
  reversed); that cell holds the maximum and is the first one, in row-major order, to
  hold it.
\<close>

theorem local_score_is_first_maximum:
  "\<exists>r. runSmithWaterman s1 s2 sc = Inr r \<and>
     score r = Max (set (concat (matrix r))) \<and>
     path r \<noteq> [] \<and>
     matrix r ! row (last (path r)) ! col (last (path r)) = score r \<and>
     first_maximum (matrix r) (length s1) (length s2) (row (last (path r))) (col (last (path r)))"
  using sw_run_start [of s1 s2 sc] by auto

theorem local_score_is_first_maximum_witness:
  "\<exists>r. runSmithWaterman ''GATTACA'' ''GCATGCA'' \<lparr>match = 1, mismatch = -1, gap = -1\<rparr> = Inr r \<and>
     score r = Max (set (concat (matrix r))) \<and>
     path r \<noteq> [] \<and>
     matrix r ! row (last (path r)) ! col (last (path r)) = score r \<and>
     first_maximum (matrix r) (length ''GATTACA'') (length ''GCATGCA'')
       (row (last (path r))) (col (last (path r)))"
  by (rule local_score_is_first_maximum
        [of "''GATTACA''" "''GCATGCA''" "\<lparr>match = 1, mismatch = -1, gap = -1\<rparr>"])

text \<open>
  C5. The local-mode score is never negative. When the maximum of the matrix is 0, so
  that no positive-scoring region exists, the score is 0, both aligned strings are empty
  and the path is the single cell \<open>(0, 0)\<close> at which the traceback starts.
\<close>

theorem local_score_nonneg_and_empty:
  "\<exists>r. runSmithWaterman s1 s2 sc = Inr r \<and>
     0 \<le> score r \<and>
     (Max (set (concat (matrix r))) = 0 \<longrightarrow>
        score r = 0 \<and> alignedSeq1 r = [] \<and> alignedSeq2 r = [] \<and>
        path r = [\<lparr>row = 0, col = 0\<rparr>])"
  using sw_run_start [of s1 s2 sc] by auto


theorem local_score_nonneg_and_empty_witness:
  "\<exists>r. runSmithWaterman ''AC'' ''GT'' \<lparr>match = 1, mismatch = -1, gap = -1\<rparr> = Inr r \<and>
     Max (set (concat (matrix r))) = 0 \<and>
     0 \<le> score r \<and> score r = 0 \<and> alignedSeq1 r = [] \<and> alignedSeq2 r = [] \<and>
     path r = [\<lparr>row = 0, col = 0\<rparr>]"
proof -
  let ?sc = "\<lparr>match = 1, mismatch = -1, gap = -1\<rparr>"
  have ev: "runSmithWaterman ''AC'' ''GT'' ?sc =
      Inr \<lparr>alignedSeq1 = [], alignedSeq2 = [], identity = 0, score = 0,
           matrix = [[0, 0, 0], [0, 0, 0], [0, 0, 0]],
           trace = [[STOP, STOP, STOP], [STOP, STOP, STOP], [STOP, STOP, STOP]],
           path = [\<lparr>row = 0, col = 0\<rparr>], seq1 = ''AC'', seq2 = ''GT'', scoring = ?sc\<rparr>"
    by code_simp
  from local_score_nonneg_and_empty [of "''AC''" "''GT''" ?sc]
  obtain r where r: "runSmithWaterman ''AC'' ''GT'' ?sc = Inr r"
    and nn: "0 \<le> score r"
    and imp: "Max (set (concat (matrix r))) = 0 \<longrightarrow>
        score r = 0 \<and> alignedSeq1 r = [] \<and> alignedSeq2 r = [] \<and>
        path r = [\<lparr>row = 0, col = 0\<rparr>]"
    by blast
  from r ev have "matrix r = [[0, 0, 0], [0, 0, 0], [0, 0, 0]]" by auto
  then have mx: "Max (set (concat (matrix r))) = 0" by simp
  with imp r nn show ?thesis by blast
qed

section \<open>The identity percentage\<close>

lemma fold_count:
  "fold (\<lambda>i m. if Q i then m + 1 else m) xs (c::nat) = c + length (filter Q xs)"
  by (induction xs arbitrary: c) simp_all

lemma zip_as_map_upt:
  "length a = length b \<Longrightarrow> zip a b = map (\<lambda>i. (a ! i, b ! i)) [0..<length a]"
  by (rule nth_equalityI) simp_all

lemma count_matches_positions:
  assumes "length a = length b"
  shows "count_matches a b = matching_positions a b"
proof -
  let ?Q = "\<lambda>i. char_at a i = char_at b i \<and> char_at a i \<noteq> Some (CHR ''-'')"
  let ?P = "\<lambda>(x, y). x = y \<and> x \<noteq> CHR ''-'' \<and> y \<noteq> CHR ''-''"
  have "count_matches a b = length (filter ?Q [0..<length a])"
    unfolding count_matches_def by (simp add: fold_count)
  also have "filter ?Q [0..<length a] = filter (?P \<circ> (\<lambda>i. (a ! i, b ! i))) [0..<length a]"
    by (rule filter_cong [OF refl]) (use assms in \<open>auto simp: char_at_def\<close>)
  also have "length \<dots> = length (filter ?P (map (\<lambda>i. (a ! i, b ! i)) [0..<length a]))"
    by (simp add: filter_map)
  also have "\<dots> = matching_positions a b"
    unfolding matching_positions_def zip_as_map_upt [OF assms] ..
  finally show ?thesis .
qed

lemma count_matches_le: "count_matches a b \<le> length a"
proof -
  have "count_matches a b =
        length (filter (\<lambda>i. char_at a i = char_at b i \<and> char_at a i \<noteq> Some (CHR ''-'')) [0..<length a])"
    unfolding count_matches_def by (simp add: fold_count)
  also have "\<dots> \<le> length [0..<length a]" by (rule length_filter_le)
  finally show ?thesis by simp
qed

lemma matching_positions_le:
  assumes "length a = length b"
  shows "matching_positions a b \<le> length a"
  using count_matches_le [of a b] count_matches_positions [OF assms] by simp

subsection \<open>Rounding to the nearest double\<close>

declare bitlen.simps [simp del]

lemma bitlen_bounds: "0 < n \<Longrightarrow> 2 ^ bitlen n \<le> 2 * n \<and> n < 2 ^ bitlen n"
proof (induction n rule: bitlen.induct)
  case (1 n)
  show ?case
  proof (cases "n div 2 = 0")
    case True
    with "1.prems" have "n = 1" by (simp add: div_eq_0_iff)
    then show ?thesis by (simp add: bitlen.simps [of "Suc 0"] bitlen.simps [of 0])
  next
    case False
    with "1.IH" "1.prems" have ih: "2 ^ bitlen (n div 2) \<le> 2 * (n div 2)" "n div 2 < 2 ^ bitlen (n div 2)"
      by simp_all
    have b: "bitlen n = Suc (bitlen (n div 2))"
      using "1.prems" by (simp add: bitlen.simps [of n])
    from ih show ?thesis unfolding b by simp arith
  qed
qed

lemma exponent_bounds:
  assumes "0 < x"
  shows "2 powi exponent x \<le> x" and "x < 2 powi (exponent x + 1)"
proof -
  obtain a b where q: "quotient_of x = (a, b)" by (cases "quotient_of x")
  have b: "0 < b" using quotient_of_denom_pos [OF q] .
  have x: "x = of_int a / of_int b" using quotient_of_div [OF q] .
  have a: "0 < a" using assms b unfolding x by (simp add: zero_less_divide_iff)
  define la lb where "la = bitlen (nat a)" and "lb = bitlen (nat b)"
  define A B :: rat where "A = of_int a" and "B = of_int b"
  define L M :: rat where "L = 2 ^ la" and "M = 2 ^ lb"
  have AB: "0 < A" "0 < B" using a b by (simp_all add: A_def B_def)
  have LM: "0 < L" "0 < M" by (simp_all add: L_def M_def)
  have "(2::nat) ^ la \<le> 2 * nat a \<and> nat a < 2 ^ la"
    unfolding la_def using a by (intro bitlen_bounds) simp
  then have "(of_nat (2 ^ la) :: rat) \<le> of_nat (2 * nat a)" "(of_nat (nat a) :: rat) < of_nat (2 ^ la)"
    by (simp_all only: of_nat_le_iff of_nat_less_iff)
  then have La: "L \<le> 2 * A" "A < L"
    using a by (simp_all add: L_def A_def)
  have "(2::nat) ^ lb \<le> 2 * nat b \<and> nat b < 2 ^ lb"
    unfolding lb_def using b by (intro bitlen_bounds) simp
  then have "(of_nat (2 ^ lb) :: rat) \<le> of_nat (2 * nat b)" "(of_nat (nat b) :: rat) < of_nat (2 ^ lb)"
    by (simp_all only: of_nat_le_iff of_nat_less_iff)
  then have Mb: "M \<le> 2 * B" "B < M"
    using b by (simp_all add: M_def B_def)
  define d where "d = int la - int lb"
  have pd: "(2::rat) powi d = L / M"
    unfolding d_def L_def M_def by (simp add: power_int_diff)
  have pd1: "(2::rat) powi (d + 1) = 2 * L / M"
    unfolding d_def L_def M_def by (simp add: power_int_diff power_int_add)
  have pdm: "(2::rat) powi (d - 1) = L / (2 * M)"
    unfolding d_def L_def M_def by (simp add: power_int_diff)
  have xAB: "x = A / B" by (simp add: x A_def B_def)
  have "A * M < L * (2 * B)"
    using La(2) Mb(1) AB LM by (intro mult_less_le_imp_less) simp_all
  then have up: "x < 2 powi (d + 1)"
    unfolding xAB pd1 using AB LM by (simp add: field_simps)
  have "L * B < (2 * A) * M"
    using La(1) Mb(2) AB LM by (intro mult_le_less_imp_less) simp_all
  then have lo: "2 powi (d - 1) < x"
    unfolding xAB pdm using AB LM by (simp add: field_simps)
  have e: "exponent x = (if 2 powi d \<le> x then d else d - 1)"
    unfolding exponent_def q d_def la_def lb_def by (simp add: Let_def)
  show "2 powi exponent x \<le> x"
    unfolding e using lo by simp
  show "x < 2 powi (exponent x + 1)"
    unfolding e using up by (simp add: not_le)
qed

lemma exponent_unique:
  assumes "0 < x" and "2 powi e \<le> x" and "x < 2 powi (e + 1)"
  shows "exponent x = e"
proof -
  note b = exponent_bounds [OF assms(1)]
  have lt1: "(2::rat) powi e < 2 powi (exponent x + 1)"
    using assms(2) b(2) by (rule le_less_trans)
  have 1: "e < exponent x + 1"
  proof (rule ccontr)
    assume "\<not> e < exponent x + 1"
    then have "exponent x + 1 \<le> e" by simp
    then have "(2::rat) powi (exponent x + 1) \<le> 2 powi e"
      by (intro power_int_increasing) simp_all
    with lt1 show False by simp
  qed
  have lt2: "(2::rat) powi exponent x < 2 powi (e + 1)"
    using b(1) assms(3) by (rule le_less_trans)
  have 2: "exponent x < e + 1"
  proof (rule ccontr)
    assume "\<not> exponent x < e + 1"
    then have "e + 1 \<le> exponent x" by simp
    then have "(2::rat) powi (e + 1) \<le> 2 powi exponent x"
      by (intro power_int_increasing) simp_all
    with lt2 show False by simp
  qed
  from 1 2 show ?thesis by simp
qed


lemma round_half_even_near:
  "\<bar>of_int (round_half_even y) - y\<bar> \<le> 1 / 2"
proof -
  define f where "f = \<lfloor>y\<rfloor>"
  define r where "r = y - of_int f"
  have "0 \<le> r" "r < 1" unfolding r_def f_def by linarith+
  then show ?thesis
    unfolding round_half_even_def Let_def f_def [symmetric] r_def [symmetric]
    using r_def by (auto simp: abs_if)
qed

lemma round_half_even_le:
  assumes "y \<le> of_int N"
  shows "round_half_even y \<le> N"
proof (cases "y = of_int N")
  case True
  then show ?thesis by (simp add: round_half_even_def)
next
  case False
  with assms have "y < of_int N" by simp
  then have "\<lfloor>y\<rfloor> < N" by (simp add: floor_less_iff)
  then show ?thesis
    by (auto simp: round_half_even_def Let_def)
qed

lemma round_half_even_ge:
  assumes "of_int N \<le> y"
  shows "N \<le> round_half_even y"
proof -
  from assms have "N \<le> \<lfloor>y\<rfloor>" by (simp add: le_floor_iff)
  then show ?thesis
    by (auto simp: round_half_even_def Let_def)
qed

lemma round_half_even_eqI:
  assumes "of_int n - 1 / 2 < y" and "y < of_int n + 1 / 2"
  shows "round_half_even y = n"
proof -
  have "\<bar>of_int (round_half_even y) - y\<bar> \<le> 1 / 2" by (rule round_half_even_near)
  with assms have "\<bar>(of_int (round_half_even y) :: rat) - of_int n\<bar> < 1" by linarith
  then have "\<bar>(of_int (round_half_even y - n) :: rat)\<bar> < 1" by simp
  then have "\<bar>round_half_even y - n\<bar> < 1"
    by (simp only: of_int_abs [symmetric] of_int_less_1_iff)
  then show ?thesis by simp
qed

lemma round_double_pos:
  assumes "0 < x"
  shows "round_double x =
         of_int (round_half_even (x / 2 powi (exponent x - 52))) * 2 powi (exponent x - 52)"
  using assms by (simp add: round_double_def Let_def)

lemma round_double_eqI:
  assumes "0 < x" and "2 powi e \<le> x" and "x < 2 powi (e + 1)"
    and "of_int n - 1 / 2 < x / 2 powi (e - 52)" and "x / 2 powi (e - 52) < of_int n + 1 / 2"
  shows "round_double x = of_int n * 2 powi (e - 52)"
  unfolding round_double_pos [OF assms(1)] exponent_unique [OF assms(1-3)]
    round_half_even_eqI [OF assms(4,5)] ..

lemma round_double_nonneg: "0 \<le> x \<Longrightarrow> 0 \<le> round_double x"
proof (cases "x = 0")
  case True
  then show ?thesis by (simp add: round_double_def)
next
  case False
  assume "0 \<le> x"
  with False have x: "0 < x" by simp
  have "of_int 0 \<le> x / 2 powi (exponent x - 52)"
    using x by simp
  then have "0 \<le> round_half_even (x / 2 powi (exponent x - 52))"
    by (rule round_half_even_ge)
  then show ?thesis
    unfolding round_double_pos [OF x] by simp
qed

text \<open>Rounding does not pass a double: \<open>c\<close> is \<open>N\<close> units in the last place of its binade.\<close>

lemma round_double_le:
  assumes x: "0 < x" and xc: "x \<le> c"
    and c: "c = of_int N * 2 powi (exponent c - 52)"
  shows "round_double x \<le> c"
proof -
  have cpos: "0 < c" using x xc by simp
  note bx = exponent_bounds [OF x] and bc = exponent_bounds [OF cpos]
  let ?e = "exponent x" and ?k = "exponent c"
  have ek: "?e \<le> ?k"
  proof (rule ccontr)
    assume "\<not> ?e \<le> ?k"
    then have "?k + 1 \<le> ?e" by simp
    then have "(2::rat) powi (?k + 1) \<le> 2 powi ?e"
      by (intro power_int_increasing) simp_all
    with bx(1) xc bc(2) show False by simp
  qed
  have up: "0 < (2::rat) powi (?e - 52)" by simp
  show ?thesis
  proof (cases "?e = ?k")
    case True
    have "x / 2 powi (?e - 52) \<le> c / 2 powi (?e - 52)"
      using xc up by (simp add: divide_right_mono)
    also have "c / 2 powi (?e - 52) = of_int N"
      using c unfolding True by (simp add: field_simps)
    finally have "round_half_even (x / 2 powi (?e - 52)) \<le> N"
      by (rule round_half_even_le)
    then have "(of_int (round_half_even (x / 2 powi (?e - 52))) :: rat) \<le> of_int N"
      by simp
    then have "of_int (round_half_even (x / 2 powi (?e - 52))) * 2 powi (?e - 52) \<le>
               of_int N * (2::rat) powi (?e - 52)"
      using up by (simp add: mult_right_mono)
    then show ?thesis
      unfolding round_double_pos [OF x] using c True by simp
  next
    case False
    with ek have lt: "?e + 1 \<le> ?k" by simp
    have "x / 2 powi (?e - 52) \<le> 2 powi (?e + 1) / 2 powi (?e - 52)"
      using bx(2) up by (simp add: divide_right_mono)
    also have "(2::rat) powi (?e + 1) / 2 powi (?e - 52) = 2 powi 53"
      by (simp add: power_int_diff [symmetric])
    also have "(2::rat) powi 53 = of_int (2 ^ 53)" by simp
    finally have "round_half_even (x / 2 powi (?e - 52)) \<le> 2 ^ 53"
      by (rule round_half_even_le)
    then have "(of_int (round_half_even (x / 2 powi (?e - 52))) :: rat) \<le> of_int (2 ^ 53)"
      by (simp only: of_int_le_iff)
    then have "of_int (round_half_even (x / 2 powi (?e - 52))) * 2 powi (?e - 52) \<le>
               of_int (2 ^ 53) * (2::rat) powi (?e - 52)"
      using up by (simp add: mult_right_mono)
    also have "of_int (2 ^ 53) * (2::rat) powi (?e - 52) = 2 powi (?e + 1)"
    proof -
      have "(2::rat) powi (53 + (?e - 52)) = 2 powi 53 * 2 powi (?e - 52)"
        by (rule power_int_add) simp
      moreover have "53 + (?e - 52) = ?e + 1" by simp
      ultimately show ?thesis by simp
    qed
    also have "(2::rat) powi (?e + 1) \<le> 2 powi ?k"
      using lt by (intro power_int_increasing) simp_all
    also have "\<dots> \<le> c" by (rule bc(1))
    finally show ?thesis
      unfolding round_double_pos [OF x] .
  qed
qed

lemma round_double_error:
  assumes x: "0 < x"
  shows "\<bar>round_double x - x\<bar> \<le> x / 2 ^ 53"
proof -
  let ?u = "(2::rat) powi (exponent x - 52)"
  have up: "0 < ?u" by simp
  have "\<bar>of_int (round_half_even (x / ?u)) - x / ?u\<bar> \<le> 1 / 2"
    by (rule round_half_even_near)
  then have "\<bar>of_int (round_half_even (x / ?u)) - x / ?u\<bar> * ?u \<le> 1 / 2 * ?u"
    using up by (simp add: mult_right_mono)
  also have "\<bar>of_int (round_half_even (x / ?u)) - x / ?u\<bar> * ?u =
             \<bar>of_int (round_half_even (x / ?u)) * ?u - x\<bar>"
  proof -
    have "\<bar>of_int (round_half_even (x / ?u)) - x / ?u\<bar> * ?u =
          \<bar>(of_int (round_half_even (x / ?u)) - x / ?u) * ?u\<bar>"
      using up by (simp add: abs_mult)
    also have "(of_int (round_half_even (x / ?u)) - x / ?u) * ?u =
               of_int (round_half_even (x / ?u)) * ?u - x"
      using up by (simp add: algebra_simps)
    finally show ?thesis .
  qed
  also have "1 / 2 * ?u = 2 powi exponent x / 2 ^ 53"
  proof -
    have "(2::rat) powi (52 + (exponent x - 52)) = 2 powi 52 * ?u"
      by (rule power_int_add) simp
    moreover have "52 + (exponent x - 52) = exponent x" by simp
    ultimately show ?thesis by simp
  qed
  also have "\<dots> \<le> x / 2 ^ 53"
    using exponent_bounds(1) [OF x] by (simp add: divide_right_mono)
  finally show ?thesis
    unfolding round_double_pos [OF x] .
qed

lemma round_double_1: "round_double 1 = 1"
  using round_double_eqI [of 1 0 "2 ^ 52"] by simp

lemma round_double_100: "round_double 100 = 100"
  using round_double_eqI [of 100 6 "100 * 2 ^ 46"] by simp

lemma exponent_1: "exponent 1 = 0"
  by (rule exponent_unique) simp_all

lemma exponent_100: "exponent 100 = 6"
  by (rule exponent_unique) simp_all

lemma round_double_0: "round_double 0 = 0"
  by (simp add: round_double_def)

lemma one_is_double: "(1::rat) = of_int (2 ^ 52) * 2 powi (exponent 1 - 52)"
  by (simp add: exponent_1)

lemma hundred_is_double: "(100::rat) = of_int (100 * 2 ^ 46) * 2 powi (exponent 100 - 52)"
  by (simp add: exponent_100)

subsection \<open>The percentage of a quotient of two counters\<close>

lemma double_percentage:
  fixes m n :: nat
  assumes n: "0 < n" and mn: "m \<le> n"
  defines "q \<equiv> (of_nat m / of_nat n :: rat)"
  shows "0 \<le> round_double (round_double q * 100)"
    and "round_double (round_double q * 100) \<le> 100"
    and "\<bar>round_double (round_double q * 100) - 100 * q\<bar> \<le> 100 / 2 ^ 52"
proof -
  have q01: "0 \<le> q" "q \<le> 1"
    using n mn by (simp_all add: q_def)
  have fq0: "0 \<le> round_double q"
    by (rule round_double_nonneg [OF q01(1)])
  then have p0: "0 \<le> round_double q * 100" by simp
  show nonneg: "0 \<le> round_double (round_double q * 100)"
    by (rule round_double_nonneg [OF p0])
  have fq1: "round_double q \<le> 1"
  proof (cases "q = 0")
    case True
    then show ?thesis by (simp add: round_double_0)
  next
    case False
    with q01(1) have "0 < q" by simp
    then show ?thesis using q01(2) one_is_double by (rule round_double_le)
  qed
  then have p100: "round_double q * 100 \<le> 100" by simp
  show "round_double (round_double q * 100) \<le> 100"
  proof (cases "round_double q * 100 = 0")
    case True
    then show ?thesis by (simp add: round_double_0)
  next
    case False
    with p0 have "0 < round_double q * 100" by simp
    then show ?thesis using p100 hundred_is_double by (rule round_double_le)
  qed
  have e1: "\<bar>round_double q - q\<bar> \<le> 1 / 2 ^ 53"
  proof (cases "q = 0")
    case True
    then show ?thesis by (simp add: round_double_0)
  next
    case False
    with q01(1) have "0 < q" by simp
    then have "\<bar>round_double q - q\<bar> \<le> q / 2 ^ 53" by (rule round_double_error)
    also have "\<dots> \<le> 1 / 2 ^ 53" using q01(2) by (simp add: divide_right_mono)
    finally show ?thesis .
  qed
  have e2: "\<bar>round_double (round_double q * 100) - round_double q * 100\<bar> \<le> 100 / 2 ^ 53"
  proof (cases "round_double q * 100 = 0")
    case True
    then show ?thesis by (simp add: round_double_0)
  next
    case False
    with p0 have "0 < round_double q * 100" by simp
    then have "\<bar>round_double (round_double q * 100) - round_double q * 100\<bar>
               \<le> round_double q * 100 / 2 ^ 53"
      by (rule round_double_error)
    also have "\<dots> \<le> 100 / 2 ^ 53" using p100 by (simp add: divide_right_mono)
    finally show ?thesis .
  qed
  have "round_double (round_double q * 100) - 100 * q =
        (round_double (round_double q * 100) - round_double q * 100) +
        100 * (round_double q - q)"
    by (simp add: algebra_simps)
  then have "\<bar>round_double (round_double q * 100) - 100 * q\<bar> \<le>
        \<bar>round_double (round_double q * 100) - round_double q * 100\<bar> +
        \<bar>100 * (round_double q - q)\<bar>"
    by (simp only: abs_triangle_ineq)
  also have "\<bar>100 * (round_double q - q)\<bar> = 100 * \<bar>round_double q - q\<bar>"
    by (simp only: abs_mult abs_numeral)
  finally have "\<bar>round_double (round_double q * 100) - 100 * q\<bar> \<le>
        \<bar>round_double (round_double q * 100) - round_double q * 100\<bar> +
        100 * \<bar>round_double q - q\<bar>" .
  also have "\<dots> \<le> 100 / 2 ^ 53 + 100 * (1 / 2 ^ 53)"
    using e1 e2 by (intro add_mono mult_left_mono) simp_all
  also have "\<dots> = 100 / 2 ^ 52" by simp
  finally show "\<bar>round_double (round_double q * 100) - 100 * q\<bar> \<le> 100 / 2 ^ 52" .
qed

lemma calculateIdentity_formula:
  assumes "length a = length b"
  shows "calculateIdentity a b =
         (if length a = 0 then 0
          else round_double
                 (round_double (of_nat (matching_positions a b) / of_nat (length a)) * 100))"
  by (simp add: calculateIdentity_def count_matches_positions [OF assms])

lemma calculateIdentity_facts:
  assumes "length a = length b"
  shows "(length a = 0 \<longrightarrow> calculateIdentity a b = 0) \<and>
         (0 < length a \<longrightarrow>
            calculateIdentity a b =
              round_double
                (round_double (of_nat (matching_positions a b) / of_nat (length a)) * 100) \<and>
            \<bar>calculateIdentity a b -
               100 * of_nat (matching_positions a b) / of_nat (length a)\<bar> \<le> 100 / 2 ^ 52) \<and>
         0 \<le> calculateIdentity a b \<and> calculateIdentity a b \<le> 100"
proof (cases "length a = 0")
  case True
  then show ?thesis by (simp add: calculateIdentity_def)
next
  case False
  then have n: "0 < length a" by simp
  note dp = double_percentage [OF n matching_positions_le [OF assms]]
  have c: "calculateIdentity a b =
      round_double (round_double (of_nat (matching_positions a b) / of_nat (length a)) * 100)"
    using False by (simp add: calculateIdentity_formula [OF assms])
  show ?thesis
    unfolding c using n dp by simp
qed

subsection \<open>The identity field of a result\<close>

lemma runNeedlemanWunsch_eval:
  assumes "nw_fill s1 s2 sc (nw_init (length s1) (length s2) sc) = (mx, tr)"
    and "nw_traceback s1 s2 tr (length s1) (length s2) [] [] [] = Inr (a1, a2, p)"
  shows "runNeedlemanWunsch s1 s2 sc =
         Inr \<lparr>alignedSeq1 = a1, alignedSeq2 = a2, identity = calculateIdentity a1 a2,
              score = mx ! length s1 ! length s2, matrix = mx, trace = tr, path = rev p,
              seq1 = s1, seq2 = s2, scoring = sc\<rparr>"
  by (simp add: runNeedlemanWunsch_def assms)

lemma third_as_double: "round_double (1 / 3) = 6004799503160661 / 18014398509481984"
  by code_simp

lemma third_percent_as_double:
  "round_double (6004799503160661 / 18014398509481984 * 100) =
   4691249611844266 / 140737488355328"
proof -
  have "(6004799503160661 / 18014398509481984 * 100 :: rat) =
        150119987579016525 / 4503599627370496"
    by simp
  moreover have "round_double (150119987579016525 / 4503599627370496) =
        4691249611844266 / 140737488355328"
    using round_double_eqI [of "150119987579016525 / 4503599627370496" 5 4691249611844266]
    by simp
  ultimately show ?thesis by (simp only:)
qed

lemma calculateIdentity_ACG_ATT:
  "calculateIdentity ''ACG'' ''ATT'' = 4691249611844266 / 140737488355328"
proof -
  have c: "count_matches ''ACG'' ''ATT'' = 1" by code_simp
  have "calculateIdentity ''ACG'' ''ATT'' = round_double (round_double (1 / 3) * 100)"
    by (simp add: calculateIdentity_def c)
  also have "\<dots> = round_double (6004799503160661 / 18014398509481984 * 100)"
    by (simp only: third_as_double)
  also have "\<dots> = 4691249611844266 / 140737488355328"
    by (rule third_percent_as_double)
  finally show ?thesis .
qed

text \<open>
  C8, as amended. In both modes the identity field is 0 for an empty alignment and
  otherwise the double \<open>(matches / alignmentLength) * 100\<close>, the quotient rounded to the
  nearest double and then the product, where the alignment length is the common length
  of the aligned strings and a position is a match when the two characters are equal and
  neither is the gap marker. It is within \<open>100 * 2 ^ -52\<close> of
  \<open>100 * matches / alignmentLength\<close> and lies between 0 and 100.
\<close>

theorem identity_double_and_range:
  "(\<exists>r. runNeedlemanWunsch s1 s2 sc = Inr r \<and>
      length (alignedSeq1 r) = length (alignedSeq2 r) \<and>
      (length (alignedSeq1 r) = 0 \<longrightarrow> identity r = 0) \<and>
      (0 < length (alignedSeq1 r) \<longrightarrow>
         identity r =
           round_double
             (round_double (of_nat (matching_positions (alignedSeq1 r) (alignedSeq2 r)) /
                            of_nat (length (alignedSeq1 r))) * 100) \<and>
         \<bar>identity r -
            100 * of_nat (matching_positions (alignedSeq1 r) (alignedSeq2 r)) /
              of_nat (length (alignedSeq1 r))\<bar> \<le> 100 / 2 ^ 52) \<and>
      0 \<le> identity r \<and> identity r \<le> 100) \<and>
   (\<exists>r. runSmithWaterman s1 s2 sc = Inr r \<and>
      length (alignedSeq1 r) = length (alignedSeq2 r) \<and>
      (length (alignedSeq1 r) = 0 \<longrightarrow> identity r = 0) \<and>
      (0 < length (alignedSeq1 r) \<longrightarrow>
         identity r =
           round_double
             (round_double (of_nat (matching_positions (alignedSeq1 r) (alignedSeq2 r)) /
                            of_nat (length (alignedSeq1 r))) * 100) \<and>
         \<bar>identity r -
            100 * of_nat (matching_positions (alignedSeq1 r) (alignedSeq2 r)) /
              of_nat (length (alignedSeq1 r))\<bar> \<le> 100 / 2 ^ 52) \<and>
      0 \<le> identity r \<and> identity r \<le> 100)"
proof
  from nw_run [of s1 s2 sc] obtain r where r: "runNeedlemanWunsch s1 s2 sc = Inr r"
    "length (alignedSeq1 r) = length (alignedSeq2 r)"
    "identity r = calculateIdentity (alignedSeq1 r) (alignedSeq2 r)"
    by blast
  show "\<exists>r. runNeedlemanWunsch s1 s2 sc = Inr r \<and>
      length (alignedSeq1 r) = length (alignedSeq2 r) \<and>
      (length (alignedSeq1 r) = 0 \<longrightarrow> identity r = 0) \<and>
      (0 < length (alignedSeq1 r) \<longrightarrow>
         identity r =
           round_double
             (round_double (of_nat (matching_positions (alignedSeq1 r) (alignedSeq2 r)) /
                            of_nat (length (alignedSeq1 r))) * 100) \<and>
         \<bar>identity r -
            100 * of_nat (matching_positions (alignedSeq1 r) (alignedSeq2 r)) /
              of_nat (length (alignedSeq1 r))\<bar> \<le> 100 / 2 ^ 52) \<and>
      0 \<le> identity r \<and> identity r \<le> 100"
    using r(1,2) calculateIdentity_facts [OF r(2), folded r(3)] by blast
next
  from sw_run [of s1 s2 sc] obtain r where r: "runSmithWaterman s1 s2 sc = Inr r"
    "length (alignedSeq1 r) = length (alignedSeq2 r)"
    "identity r = calculateIdentity (alignedSeq1 r) (alignedSeq2 r)"
    by blast
  show "\<exists>r. runSmithWaterman s1 s2 sc = Inr r \<and>
      length (alignedSeq1 r) = length (alignedSeq2 r) \<and>
      (length (alignedSeq1 r) = 0 \<longrightarrow> identity r = 0) \<and>
      (0 < length (alignedSeq1 r) \<longrightarrow>
         identity r =
           round_double
             (round_double (of_nat (matching_positions (alignedSeq1 r) (alignedSeq2 r)) /
                            of_nat (length (alignedSeq1 r))) * 100) \<and>
         \<bar>identity r -
            100 * of_nat (matching_positions (alignedSeq1 r) (alignedSeq2 r)) /
              of_nat (length (alignedSeq1 r))\<bar> \<le> 100 / 2 ^ 52) \<and>
      0 \<le> identity r \<and> identity r \<le> 100"
    using r(1,2) calculateIdentity_facts [OF r(2), folded r(3)] by blast
qed

theorem identity_double_and_range_witness:
  "(\<exists>r. runNeedlemanWunsch ''AC'' ''AG'' \<lparr>match = 1, mismatch = -1, gap = -1\<rparr> = Inr r \<and>
      0 < length (alignedSeq1 r) \<and>
      matching_positions (alignedSeq1 r) (alignedSeq2 r) = 1 \<and> length (alignedSeq1 r) = 2 \<and>
      identity r = round_double (round_double (1 / 2) * 100) \<and>
      \<bar>identity r - 100 * 1 / 2\<bar> \<le> 100 / 2 ^ 52 \<and>
      0 \<le> identity r \<and> identity r \<le> 100) \<and>
   (\<exists>r. runSmithWaterman ''AC'' ''AG'' \<lparr>match = 1, mismatch = -1, gap = -1\<rparr> = Inr r \<and>
      0 < length (alignedSeq1 r) \<and>
      matching_positions (alignedSeq1 r) (alignedSeq2 r) = 1 \<and> length (alignedSeq1 r) = 1 \<and>
      identity r = round_double (round_double (1 / 1) * 100) \<and>
      \<bar>identity r - 100 * 1 / 1\<bar> \<le> 100 / 2 ^ 52 \<and>
      0 \<le> identity r \<and> identity r \<le> 100)"
proof -
  let ?sc = "\<lparr>match = 1, mismatch = -1, gap = -1\<rparr>"
  have nw: "runNeedlemanWunsch ''AC'' ''AG'' ?sc =
      Inr \<lparr>alignedSeq1 = ''AC'', alignedSeq2 = ''AG'', identity = 50, score = 0,
           matrix = [[0, -1, -2], [-1, 1, 0], [-2, 0, 0]],
           trace = [[STOP, LEFT, LEFT], [UP, DIAGONAL, LEFT], [UP, UP, DIAGONAL]],
           path = [\<lparr>row = 0, col = 0\<rparr>, \<lparr>row = 1, col = 1\<rparr>, \<lparr>row = 2, col = 2\<rparr>],
           seq1 = ''AC'', seq2 = ''AG'', scoring = ?sc\<rparr>"
    by code_simp
  have sw: "runSmithWaterman ''AC'' ''AG'' ?sc =
      Inr \<lparr>alignedSeq1 = ''A'', alignedSeq2 = ''A'', identity = 100, score = 1,
           matrix = [[0, 0, 0], [0, 1, 0], [0, 0, 0]],
           trace = [[STOP, STOP, STOP], [STOP, DIAGONAL, STOP], [STOP, STOP, STOP]],
           path = [\<lparr>row = 0, col = 0\<rparr>, \<lparr>row = 1, col = 1\<rparr>],
           seq1 = ''AC'', seq2 = ''AG'', scoring = ?sc\<rparr>"
    by code_simp
  note t = identity_double_and_range [of "''AC''" "''AG''" ?sc]
  from t obtain r where r: "runNeedlemanWunsch ''AC'' ''AG'' ?sc = Inr r"
    and f: "0 < length (alignedSeq1 r) \<longrightarrow>
         identity r =
           round_double
             (round_double (of_nat (matching_positions (alignedSeq1 r) (alignedSeq2 r)) /
                            of_nat (length (alignedSeq1 r))) * 100) \<and>
         \<bar>identity r -
            100 * of_nat (matching_positions (alignedSeq1 r) (alignedSeq2 r)) /
              of_nat (length (alignedSeq1 r))\<bar> \<le> 100 / 2 ^ 52"
    and g: "0 \<le> identity r" "identity r \<le> 100"
    by blast
  from r nw have a: "alignedSeq1 r = ''AC''" "alignedSeq2 r = ''AG''" by auto
  have m: "matching_positions ''AC'' ''AG'' = 1" by (simp add: matching_positions_def)
  have pos: "0 < length (alignedSeq1 r)" by (simp add: a)
  note f2 = f [rule_format, OF pos, unfolded a m]
  have i: "identity r = round_double (round_double (1 / 2) * 100)"
      "\<bar>identity r - 100 * 1 / 2\<bar> \<le> 100 / 2 ^ 52"
    using f2 [THEN conjunct1] f2 [THEN conjunct2] by simp_all
  from r g i have 1: "\<exists>r. runNeedlemanWunsch ''AC'' ''AG'' ?sc = Inr r \<and>
      0 < length (alignedSeq1 r) \<and>
      matching_positions (alignedSeq1 r) (alignedSeq2 r) = 1 \<and> length (alignedSeq1 r) = 2 \<and>
      identity r = round_double (round_double (1 / 2) * 100) \<and>
      \<bar>identity r - 100 * 1 / 2\<bar> \<le> 100 / 2 ^ 52 \<and>
      0 \<le> identity r \<and> identity r \<le> 100"
    by (intro exI [of _ r] conjI) (simp_all only: a m, simp_all)
  from t obtain r' where r': "runSmithWaterman ''AC'' ''AG'' ?sc = Inr r'"
    and f': "0 < length (alignedSeq1 r') \<longrightarrow>
         identity r' =
           round_double
             (round_double (of_nat (matching_positions (alignedSeq1 r') (alignedSeq2 r')) /
                            of_nat (length (alignedSeq1 r'))) * 100) \<and>
         \<bar>identity r' -
            100 * of_nat (matching_positions (alignedSeq1 r') (alignedSeq2 r')) /
              of_nat (length (alignedSeq1 r'))\<bar> \<le> 100 / 2 ^ 52"
    and g': "0 \<le> identity r'" "identity r' \<le> 100"
    by blast
  from r' sw have a': "alignedSeq1 r' = ''A''" "alignedSeq2 r' = ''A''" by auto
  have m': "matching_positions ''A'' ''A'' = 1" by (simp add: matching_positions_def)
  have pos': "0 < length (alignedSeq1 r')" by (simp add: a')
  note f2' = f' [rule_format, OF pos', unfolded a' m']
  have i': "identity r' = round_double (round_double (1 / 1) * 100)"
      "\<bar>identity r' - 100 * 1 / 1\<bar> \<le> 100 / 2 ^ 52"
    using f2' [THEN conjunct1] f2' [THEN conjunct2] by simp_all
  from r' g' i' have 2: "\<exists>r. runSmithWaterman ''AC'' ''AG'' ?sc = Inr r \<and>
      0 < length (alignedSeq1 r) \<and>
      matching_positions (alignedSeq1 r) (alignedSeq2 r) = 1 \<and> length (alignedSeq1 r) = 1 \<and>
      identity r = round_double (round_double (1 / 1) * 100) \<and>
      \<bar>identity r - 100 * 1 / 1\<bar> \<le> 100 / 2 ^ 52 \<and>
      0 \<le> identity r \<and> identity r \<le> 100"
    by (intro exI [of _ r'] conjI) (simp_all only: a' m', simp_all)
  from 1 2 show ?thesis by (rule conjI)
qed

text \<open>
  C8, as stated, fails: \<open>ACG\<close> against \<open>ATT\<close> aligns without gaps, one position in three
  matches, and the identity returned is the double \<open>33.33333333333333\<close>, which is not
  \<open>100 * 1 / 3\<close>.
\<close>

theorem identity_not_exact_quotient:
  "runNeedlemanWunsch ''ACG'' ''ATT'' \<lparr>match = 1, mismatch = -1, gap = -1\<rparr> =
     Inr \<lparr>alignedSeq1 = ''ACG'', alignedSeq2 = ''ATT'',
          identity = 4691249611844266 / 140737488355328, score = -1,
          matrix = [[0, -1, -2, -3], [-1, 1, 0, -1], [-2, 0, 0, -1], [-3, -1, -1, -1]],
          trace = [[STOP, LEFT, LEFT, LEFT], [UP, DIAGONAL, LEFT, LEFT],
                   [UP, UP, DIAGONAL, DIAGONAL], [UP, UP, DIAGONAL, DIAGONAL]],
          path = [\<lparr>row = 0, col = 0\<rparr>, \<lparr>row = 1, col = 1\<rparr>, \<lparr>row = 2, col = 2\<rparr>,
                  \<lparr>row = 3, col = 3\<rparr>],
          seq1 = ''ACG'', seq2 = ''ATT'', scoring = \<lparr>match = 1, mismatch = -1, gap = -1\<rparr>\<rparr> \<and>
   matching_positions ''ACG'' ''ATT'' = 1 \<and> length ''ACG'' = 3 \<and>
   (4691249611844266 / 140737488355328 :: rat) \<noteq> 100 * 1 / 3"
proof -
  let ?sc = "\<lparr>match = 1, mismatch = -1, gap = -1\<rparr>"
  have fill: "nw_fill ''ACG'' ''ATT'' ?sc (nw_init (length ''ACG'') (length ''ATT'') ?sc) =
      ([[0, -1, -2, -3], [-1, 1, 0, -1], [-2, 0, 0, -1], [-3, -1, -1, -1]],
       [[STOP, LEFT, LEFT, LEFT], [UP, DIAGONAL, LEFT, LEFT],
        [UP, UP, DIAGONAL, DIAGONAL], [UP, UP, DIAGONAL, DIAGONAL]])"
    by code_simp
  have walk: "nw_traceback ''ACG'' ''ATT''
        [[STOP, LEFT, LEFT, LEFT], [UP, DIAGONAL, LEFT, LEFT],
         [UP, UP, DIAGONAL, DIAGONAL], [UP, UP, DIAGONAL, DIAGONAL]]
        (length ''ACG'') (length ''ATT'') [] [] [] =
      Inr (''ACG'', ''ATT'',
           [\<lparr>row = 3, col = 3\<rparr>, \<lparr>row = 2, col = 2\<rparr>, \<lparr>row = 1, col = 1\<rparr>,
            \<lparr>row = 0, col = 0\<rparr>])"
    by code_simp
  have "runNeedlemanWunsch ''ACG'' ''ATT'' ?sc =
     Inr \<lparr>alignedSeq1 = ''ACG'', alignedSeq2 = ''ATT'',
          identity = 4691249611844266 / 140737488355328, score = -1,
          matrix = [[0, -1, -2, -3], [-1, 1, 0, -1], [-2, 0, 0, -1], [-3, -1, -1, -1]],
          trace = [[STOP, LEFT, LEFT, LEFT], [UP, DIAGONAL, LEFT, LEFT],
                   [UP, UP, DIAGONAL, DIAGONAL], [UP, UP, DIAGONAL, DIAGONAL]],
          path = [\<lparr>row = 0, col = 0\<rparr>, \<lparr>row = 1, col = 1\<rparr>, \<lparr>row = 2, col = 2\<rparr>,
                  \<lparr>row = 3, col = 3\<rparr>],
          seq1 = ''ACG'', seq2 = ''ATT'', scoring = ?sc\<rparr>"
    unfolding runNeedlemanWunsch_eval [OF fill walk] calculateIdentity_ACG_ATT by simp
  moreover have "matching_positions ''ACG'' ''ATT'' = 1"
    by (simp add: matching_positions_def)
  ultimately show ?thesis by simp
qed

text \<open>
  The same happens where \<open>100 * matches / alignmentLength\<close> is itself a double: 11
  matches in 20 positions give \<open>55.00000000000001\<close>, not 55.
\<close>

lemma identity_eleven_of_twenty:
  "calculateIdentity ''AAAAAAAAAAACCCCCCCCC'' ''AAAAAAAAAAAGGGGGGGGG'' =
     7740561859543041 / 140737488355328 \<and>
   (7740561859543041 / 140737488355328 :: rat) \<noteq> 55"
proof -
  have c: "count_matches ''AAAAAAAAAAACCCCCCCCC'' ''AAAAAAAAAAAGGGGGGGGG'' = 11" by code_simp
  have q: "round_double (11 / 20) = 2476979795053773 / 4503599627370496"
    by code_simp
  have p: "round_double (2476979795053773 / 4503599627370496 * 100) =
        7740561859543041 / 140737488355328"
  proof -
    have "(2476979795053773 / 4503599627370496 * 100 :: rat) =
          61924494876344325 / 1125899906842624"
      by simp
    moreover have "round_double (61924494876344325 / 1125899906842624) =
          7740561859543041 / 140737488355328"
      using round_double_eqI [of "61924494876344325 / 1125899906842624" 5 7740561859543041]
      by simp
    ultimately show ?thesis by (simp only:)
  qed
  have "calculateIdentity ''AAAAAAAAAAACCCCCCCCC'' ''AAAAAAAAAAAGGGGGGGGG'' =
        round_double (round_double (11 / 20) * 100)"
    by (simp add: calculateIdentity_def c)
  also have "\<dots> = round_double (2476979795053773 / 4503599627370496 * 100)"
    by (simp only: q)
  also have "\<dots> = 7740561859543041 / 140737488355328" by (rule p)
  finally show ?thesis by simp
qed

section \<open>Equal sequences in global mode\<close>

lemma fst_nw_choose: "fst (nw_choose d u l) = max d (max u l)"
  by (simp add: nw_choose_def max_def)

lemma nw_ref_bound:
  "match sc \<le> 1 \<Longrightarrow> mismatch sc \<le> 1 \<Longrightarrow> gap sc \<le> 0 \<Longrightarrow>
   fst (nw_ref s1 s2 sc i j) \<le> int (min i j)"
proof (induction s1 s2 sc i j rule: nw_ref.induct)
  case (1 s1 s2 sc)
  show ?case by simp
next
  case (2 s1 s2 sc i)
  have "int (Suc i) * gap sc \<le> 0"
    by (rule mult_nonneg_nonpos) (use 2 in simp_all)
  then show ?case by simp
next
  case (3 s1 s2 sc j)
  have "int (Suc j) * gap sc \<le> 0"
    by (rule mult_nonneg_nonpos) (use 3 in simp_all)
  then show ?case by simp
next
  case (4 s1 s2 sc i j)
  have m: "(if s1 ! i = s2 ! j then match sc else mismatch sc) \<le> 1"
    using "4.prems" by simp
  have "fst (nw_ref s1 s2 sc i j) \<le> int (min i j)"
    "fst (nw_ref s1 s2 sc i (Suc j)) \<le> int (min i (Suc j))"
    "fst (nw_ref s1 s2 sc (Suc i) j) \<le> int (min (Suc i) j)"
    using "4.IH" "4.prems" by simp_all
  moreover have "int (min i (Suc j)) \<le> 1 + int (min i j)" "int (min (Suc i) j) \<le> 1 + int (min i j)"
    by simp_all
  ultimately show ?case
    using m "4.prems"(3) by (simp add: fst_nw_choose)
qed

lemma nw_ref_diagonal:
  assumes "match sc = 1" "mismatch sc \<le> 1" "gap sc \<le> 0"
  shows "nw_ref s s sc k k = (int k, if k = 0 then STOP else DIAGONAL)"
proof (induction k)
  case 0
  show ?case by simp
next
  case (Suc k)
  have b: "match sc \<le> 1" using assms(1) by simp
  have u: "fst (nw_ref s s sc k (Suc k)) + gap sc \<le> int k + 1"
    using nw_ref_bound [OF b assms(2,3), of s s k "Suc k"] assms(3) by simp
  have l: "fst (nw_ref s s sc (Suc k) k) + gap sc \<le> int k + 1"
    using nw_ref_bound [OF b assms(2,3), of s s "Suc k" k] assms(3) by simp
  have "nw_ref s s sc (Suc k) (Suc k) =
        nw_choose (int k + 1) (fst (nw_ref s s sc k (Suc k)) + gap sc)
          (fst (nw_ref s s sc (Suc k) k) + gap sc)"
    using Suc assms(1) by simp
  also have "\<dots> = (int k + 1, DIAGONAL)"
    using u l by (simp add: nw_choose_def)
  finally show ?case by simp
qed

lemma nw_traceback_diagonal:
  assumes tr: "\<And>k. 0 < k \<Longrightarrow> k \<le> length s \<Longrightarrow> cell_at tr k k = Some DIAGONAL"
  shows "i \<le> length s \<Longrightarrow>
         \<exists>q. nw_traceback s s tr i i a1 a2 p = Inr (take i s @ a1, take i s @ a2, q)"
proof (induction i arbitrary: a1 a2 p)
  case 0
  show ?case by (simp add: nw_step_done)
next
  case (Suc i)
  then have i: "i < length s" by simp
  have step: "nw_traceback s s tr (Suc i) (Suc i) a1 a2 p =
      nw_traceback s s tr i i (s ! i # a1) (s ! i # a2) (p @ [\<lparr>row = Suc i, col = Suc i\<rparr>])"
    using nw_step_diagonal [OF tr [of "Suc i"], of s s a1 a2 p] Suc.prems by simp
  from Suc.IH [of "s ! i # a1" "s ! i # a2" "p @ [\<lparr>row = Suc i, col = Suc i\<rparr>]"] i
  show ?case
    unfolding step by (simp add: take_Suc_conv_app_nth)
qed

lemma calculateIdentity_same:
  assumes "s \<noteq> []" and "CHR ''-'' \<notin> set s"
  shows "calculateIdentity s s = 100"
proof -
  have "filter (\<lambda>(x, y). x = y \<and> x \<noteq> CHR ''-'' \<and> y \<noteq> CHR ''-'') (zip s s) = zip s s"
    by (rule filter_True) (use assms(2) in \<open>auto simp: zip_same\<close>)
  then have "matching_positions s s = length s"
    by (simp add: matching_positions_def)
  then show ?thesis
    using assms(1) by (simp add: calculateIdentity_formula round_double_1 round_double_100)
qed

text \<open>
  C3, as amended. A non-empty sequence free of the gap marker, aligned with itself in
  global mode under a scheme with match 1, mismatch at most 1 and gap at most 0, is
  returned unchanged on both sides, with score \<open>n\<close> and identity 100.
\<close>

theorem equal_sequences_global:
  assumes "s \<noteq> []" and "CHR ''-'' \<notin> set s"
    and "match sc = 1" and "mismatch sc \<le> 1" and "gap sc \<le> 0"
  shows "\<exists>r. runNeedlemanWunsch s s sc = Inr r \<and>
           score r = int (length s) \<and> identity r = 100 \<and>
           alignedSeq1 r = s \<and> alignedSeq2 r = s"
proof -
  from nw_run [of s s sc] obtain r w where run: "runNeedlemanWunsch s s sc = Inr r"
    and ag: "agree (nw_ref s s sc) (length s) (length s) (\<lambda>r c. True) (matrix r) (trace r)"
    and sc: "score r = matrix r ! length s ! length s"
    and id: "identity r = calculateIdentity (alignedSeq1 r) (alignedSeq2 r)"
    and tb: "nw_traceback s s (trace r) (length s) (length s) [] [] [] =
             Inr (alignedSeq1 r, alignedSeq2 r, w)"
    by blast
  note diag = nw_ref_diagonal [OF assms(3-5), of s]
  have "score r = int (length s)"
    unfolding sc using agree_all_nth(1) [OF ag le_refl le_refl] diag [of "length s"] by simp
  moreover have dg: "cell_at (trace r) k k = Some DIAGONAL" if "0 < k" "k \<le> length s" for k
    using agree_all_cell_at(2) [OF ag that(2) that(2)] diag [of k] that(1) by simp
  have "\<exists>q. nw_traceback s s (trace r) (length s) (length s) [] [] [] =
              Inr (take (length s) s @ [], take (length s) s @ [], q)"
    by (rule nw_traceback_diagonal [OF dg le_refl])
  with tb have al: "alignedSeq1 r = s" "alignedSeq2 r = s" by auto
  have "identity r = 100"
    unfolding id al by (rule calculateIdentity_same [OF assms(1,2)])
  ultimately show ?thesis using run al by blast
qed

theorem equal_sequences_global_witness:
  "''GATTACA'' \<noteq> [] \<and> CHR ''-'' \<notin> set ''GATTACA'' \<and>
   match \<lparr>match = 1, mismatch = -1, gap = -2\<rparr> = 1 \<and>
   mismatch \<lparr>match = 1, mismatch = -1, gap = -2\<rparr> \<le> 1 \<and>
   gap \<lparr>match = 1, mismatch = -1, gap = -2\<rparr> \<le> 0 \<and>
   (\<exists>r. runNeedlemanWunsch ''GATTACA'' ''GATTACA'' \<lparr>match = 1, mismatch = -1, gap = -2\<rparr> = Inr r \<and>
      score r = 7 \<and> identity r = 100 \<and>
      alignedSeq1 r = ''GATTACA'' \<and> alignedSeq2 r = ''GATTACA'')"
  using equal_sequences_global [of "''GATTACA''" "\<lparr>match = 1, mismatch = -1, gap = -2\<rparr>"]
  by simp

text \<open>
  C3, as stated, fails: with match 1 and gap 5 the sequence \<open>A\<close> against itself scores 10
  along two gaps, not 1, and its identity is 0.
\<close>

theorem equal_sequences_positive_gap:
  "runNeedlemanWunsch ''A'' ''A'' \<lparr>match = 1, mismatch = -1, gap = 5\<rparr> =
     Inr \<lparr>alignedSeq1 = ''-A'', alignedSeq2 = ''A-'', identity = 0, score = 10,
          matrix = [[0, 5], [5, 10]], trace = [[STOP, LEFT], [UP, UP]],
          path = [\<lparr>row = 0, col = 0\<rparr>, \<lparr>row = 0, col = 1\<rparr>, \<lparr>row = 1, col = 1\<rparr>],
          seq1 = ''A'', seq2 = ''A'', scoring = \<lparr>match = 1, mismatch = -1, gap = 5\<rparr>\<rparr> \<and>
   match \<lparr>match = 1, mismatch = -1, gap = 5\<rparr> = 1 \<and>
   (10::int) \<noteq> int (length ''A'') \<and> (0::rat) \<noteq> 100"
  by code_simp

text \<open>
  The two other bounds of the amended statement are needed as well: a mismatch score
  above the match score lets a shifted alignment win, and a sequence made of the gap
  marker has no matching position.
\<close>

lemma equal_sequences_large_mismatch:
  "runNeedlemanWunsch ''AB'' ''AB'' \<lparr>match = 1, mismatch = 10, gap = 0\<rparr> =
     Inr \<lparr>alignedSeq1 = ''-AB'', alignedSeq2 = ''AB-'', identity = 0, score = 10,
          matrix = [[0, 0, 0], [0, 1, 10], [0, 10, 10]],
          trace = [[STOP, LEFT, LEFT], [UP, DIAGONAL, DIAGONAL], [UP, DIAGONAL, UP]],
          path = [\<lparr>row = 0, col = 0\<rparr>, \<lparr>row = 0, col = 1\<rparr>, \<lparr>row = 1, col = 2\<rparr>,
                  \<lparr>row = 2, col = 2\<rparr>],
          seq1 = ''AB'', seq2 = ''AB'', scoring = \<lparr>match = 1, mismatch = 10, gap = 0\<rparr>\<rparr>"
  by code_simp

lemma equal_sequences_gap_marker:
  "runNeedlemanWunsch ''-'' ''-'' \<lparr>match = 1, mismatch = -1, gap = -1\<rparr> =
     Inr \<lparr>alignedSeq1 = ''-'', alignedSeq2 = ''-'', identity = 0, score = 1,
          matrix = [[0, -1], [-1, 1]], trace = [[STOP, LEFT], [UP, DIAGONAL]],
          path = [\<lparr>row = 0, col = 0\<rparr>, \<lparr>row = 1, col = 1\<rparr>],
          seq1 = ''-'', seq2 = ''-'', scoring = \<lparr>match = 1, mismatch = -1, gap = -1\<rparr>\<rparr>"
  by code_simp

end
